theory Spec2Isabelle
  imports Complex_Main "HOL-Library.AList"
begin

section \<open>Problem model (src/baseline/problem.py)\<close>

subsection \<open>Errors\<close>

text \<open>
  Every \<^verbatim>\<open>raise\<close> of the Python source is a value. The messages of the
  \<^verbatim>\<open>ValueError\<close>s are constructors, so that the f-string of the dependency
  check keeps its two numbers.
\<close>

datatype value_error =
    Chip_dimensions_must_be_positive
  | At_least_one_operation_required
  | Depends_on_unknown_operation int int
  | Dependency_graph_contains_cycles
  | Not_a_valid_ModuleType
  | Empty_sequence_argument
  | Unknown_strategy string

datatype error =
    ValueError value_error
  | KeyError string
  | KeyError_id int
  | TypeError
  | AttributeError
  | RecursionError
  | StopIteration

definition ebind :: "error + 'a \<Rightarrow> ('a \<Rightarrow> error + 'b) \<Rightarrow> error + 'b" where
  "ebind m f = (case m of Inl e \<Rightarrow> Inl e | Inr v \<Rightarrow> f v)"

lemma ebind_simps [simp]:
  "ebind (Inl e) f = Inl e"
  "ebind (Inr v) f = f v"
  by (simp_all add: ebind_def)

lemma ebind_eq_Inr:
  "ebind m f = Inr r \<longleftrightarrow> (\<exists>v. m = Inr v \<and> f v = Inr r)"
  by (cases m) simp_all

fun emap :: "('a \<Rightarrow> error + 'b) \<Rightarrow> 'a list \<Rightarrow> error + 'b list" where
  "emap f [] = Inr []"
| "emap f (x # xs) = ebind (f x) (\<lambda>y. ebind (emap f xs) (\<lambda>ys. Inr (y # ys)))"

subsection \<open>Data classes\<close>

datatype ModuleType = MIXER | HEATER | DETECTOR | STORAGE | DISPENSER | WASTE

record Module =
  m_name :: string
  m_type :: ModuleType
  m_width :: int
  m_height :: int
  m_exec_time :: int
  m_position :: "(int \<times> int) option"

record Operation =
  op_id :: int
  op_type :: string
  module_type :: string
  dependencies :: "int list"
  duration :: "int option"
  inputs :: "int list"
  outputs :: "int list"

record Droplet =
  d_id :: int
  d_start :: "int \<times> int"
  d_end :: "int \<times> int"
  start_time :: int
  deadline :: int
  operation_id :: "int option"
  volume :: real
  d_path :: "(int \<times> int \<times> int) list"

text \<open>
  A Python \<^verbatim>\<open>dict\<close> with string keys is an association list in insertion order;
  \<^verbatim>\<open>modules[k]\<close> is \<^const>\<open>map_of\<close>.
\<close>

record DMFBProblem =
  p_name :: string
  chip_width :: int
  chip_height :: int
  modules :: "(string \<times> Module) list"
  operations :: "Operation list"
  droplets :: "Droplet list option"

subsection \<open>\<^verbatim>\<open>Operation.get_duration\<close>\<close>

definition get_duration :: "Operation \<Rightarrow> (string \<times> Module) list \<Rightarrow> error + int" where
  "get_duration op mods =
     (case duration op of
        Some d \<Rightarrow> Inr d
      | None \<Rightarrow>
          (case map_of mods (module_type op) of
             None \<Rightarrow> Inl (KeyError (module_type op))
           | Some m \<Rightarrow> Inr (m_exec_time m)))"

subsection \<open>\<^verbatim>\<open>DMFBProblem.__post_init__\<close>\<close>

text \<open>
  The two nested \<^verbatim>\<open>for\<close> loops of the dependency check, in the source's order:
  the first unknown dependency of the first operation that has one is reported.
\<close>

fun check_dependencies :: "int set \<Rightarrow> int \<Rightarrow> int list \<Rightarrow> error + unit" where
  "check_dependencies op_ids i [] = Inr ()"
| "check_dependencies op_ids i (dep # deps) =
     (if dep \<notin> op_ids then Inl (ValueError (Depends_on_unknown_operation i dep))
      else check_dependencies op_ids i deps)"

fun check_operations :: "int set \<Rightarrow> Operation list \<Rightarrow> error + unit" where
  "check_operations op_ids [] = Inr ()"
| "check_operations op_ids (op # ops) =
     ebind (check_dependencies op_ids (op_id op) (dependencies op))
       (\<lambda>_. check_operations op_ids ops)"

definition post_init :: "DMFBProblem \<Rightarrow> error + unit" where
  "post_init p =
     (if chip_width p \<le> 0 \<or> chip_height p \<le> 0
        then Inl (ValueError Chip_dimensions_must_be_positive)
      else if operations p = []
        then Inl (ValueError At_least_one_operation_required)
      else check_operations (op_id ` set (operations p)) (operations p))"

text \<open>
  The constructor call \<^verbatim>\<open>DMFBProblem(name, chip_width, chip_height, modules,
  operations, droplets)\<close>: the dataclass stores the fields and runs
  \<^verbatim>\<open>__post_init__\<close>; an exception there means no instance exists.
\<close>

definition new_DMFBProblem ::
  "string \<Rightarrow> int \<Rightarrow> int \<Rightarrow> (string \<times> Module) list \<Rightarrow> Operation list \<Rightarrow>
   Droplet list option \<Rightarrow> error + DMFBProblem" where
  "new_DMFBProblem n w h ms ops ds =
     (let p = \<lparr>p_name = n, chip_width = w, chip_height = h, modules = ms,
                operations = ops, droplets = ds\<rparr>
      in ebind (post_init p) (\<lambda>_. Inr p))"


subsection \<open>Serialization: \<^verbatim>\<open>to_dict\<close> and \<^verbatim>\<open>from_dict\<close>\<close>

text \<open>
  The values a \<^verbatim>\<open>to_dict\<close> builds and a \<^verbatim>\<open>from_dict\<close> reads. \<open>PSeq\<close> is a
  Python list or tuple: the code reads one only through \<^verbatim>\<open>tuple(...)\<close>, iteration and
  truth value, which do not tell them apart. \<open>PDict\<close> is a dict with string keys, in
  insertion order.
\<close>

datatype pyval =
    PNone
  | PInt int
  | PFloat real
  | PStr string
  | PSeq "pyval list"
  | PDict "(string \<times> pyval) list"

text \<open>Truth value of a Python object, as \<^verbatim>\<open>if v\<close> tests it.\<close>

fun truthy :: "pyval \<Rightarrow> bool" where
  "truthy PNone = False"
| "truthy (PInt i) = (i \<noteq> 0)"
| "truthy (PFloat r) = (r \<noteq> 0)"
| "truthy (PStr s) = (s \<noteq> [])"
| "truthy (PSeq vs) = (vs \<noteq> [])"
| "truthy (PDict kvs) = (kvs \<noteq> [])"

text \<open>\<^verbatim>\<open>data[k]\<close>, \<^verbatim>\<open>data.get(k, default)\<close>, \<^verbatim>\<open>k in data\<close> and \<^verbatim>\<open>data.items()\<close>.\<close>

fun getitem :: "pyval \<Rightarrow> string \<Rightarrow> error + pyval" where
  "getitem (PDict kvs) k =
     (case map_of kvs k of None \<Rightarrow> Inl (KeyError k) | Some v \<Rightarrow> Inr v)"
| "getitem _ k = Inl TypeError"

fun dict_get :: "pyval \<Rightarrow> string \<Rightarrow> pyval \<Rightarrow> error + pyval" where
  "dict_get (PDict kvs) k dflt =
     (case map_of kvs k of None \<Rightarrow> Inr dflt | Some v \<Rightarrow> Inr v)"
| "dict_get _ k dflt = Inl AttributeError"

fun contains_key :: "pyval \<Rightarrow> string \<Rightarrow> error + bool" where
  "contains_key (PDict kvs) k = Inr (map_of kvs k \<noteq> None)"
| "contains_key _ k = Inl TypeError"

fun dict_items :: "pyval \<Rightarrow> error + (string \<times> pyval) list" where
  "dict_items (PDict kvs) = Inr kvs"
| "dict_items _ = Inl AttributeError"

text \<open>
  Python stores whatever object the dict holds; the records here are typed as the
  dataclass annotations say, so a value of another shape is a \<open>TypeError\<close> of the model.
\<close>

fun as_int :: "pyval \<Rightarrow> error + int" where
  "as_int (PInt i) = Inr i"
| "as_int _ = Inl TypeError"

fun as_opt_int :: "pyval \<Rightarrow> error + int option" where
  "as_opt_int PNone = Inr None"
| "as_opt_int (PInt i) = Inr (Some i)"
| "as_opt_int _ = Inl TypeError"

fun as_float :: "pyval \<Rightarrow> error + real" where
  "as_float (PFloat r) = Inr r"
| "as_float (PInt i) = Inr (of_int i)"
| "as_float _ = Inl TypeError"

fun as_str :: "pyval \<Rightarrow> error + string" where
  "as_str (PStr s) = Inr s"
| "as_str _ = Inl TypeError"

fun as_seq :: "pyval \<Rightarrow> error + pyval list" where
  "as_seq (PSeq vs) = Inr vs"
| "as_seq _ = Inl TypeError"

definition as_int_list :: "pyval \<Rightarrow> error + int list" where
  "as_int_list v = ebind (as_seq v) (emap as_int)"

text \<open>\<^verbatim>\<open>tuple(v)\<close> where the field is a pair, and where it is a triple.\<close>

fun as_pair :: "pyval \<Rightarrow> error + (int \<times> int)" where
  "as_pair (PSeq [PInt x, PInt y]) = Inr (x, y)"
| "as_pair _ = Inl TypeError"

fun as_triple :: "pyval \<Rightarrow> error + (int \<times> int \<times> int)" where
  "as_triple (PSeq [PInt x, PInt y, PInt t]) = Inr (x, y, t)"
| "as_triple _ = Inl TypeError"

fun ModuleType_value :: "ModuleType \<Rightarrow> string" where
  "ModuleType_value MIXER = ''mixer''"
| "ModuleType_value HEATER = ''heater''"
| "ModuleType_value DETECTOR = ''detector''"
| "ModuleType_value STORAGE = ''storage''"
| "ModuleType_value DISPENSER = ''dispenser''"
| "ModuleType_value WASTE = ''waste''"

text \<open>The enum lookup \<^verbatim>\<open>ModuleType(v)\<close>.\<close>

definition ModuleType_of :: "pyval \<Rightarrow> error + ModuleType" where
  "ModuleType_of v =
     (if v = PStr ''mixer'' then Inr MIXER
      else if v = PStr ''heater'' then Inr HEATER
      else if v = PStr ''detector'' then Inr DETECTOR
      else if v = PStr ''storage'' then Inr STORAGE
      else if v = PStr ''dispenser'' then Inr DISPENSER
      else if v = PStr ''waste'' then Inr WASTE
      else Inl (ValueError Not_a_valid_ModuleType))"

fun of_pair :: "int \<times> int \<Rightarrow> pyval" where
  "of_pair (x, y) = PSeq [PInt x, PInt y]"

fun of_triple :: "int \<times> int \<times> int \<Rightarrow> pyval" where
  "of_triple (x, y, t) = PSeq [PInt x, PInt y, PInt t]"

definition of_opt_int :: "int option \<Rightarrow> pyval" where
  "of_opt_int v = (case v of None \<Rightarrow> PNone | Some i \<Rightarrow> PInt i)"

definition Module_to_dict :: "Module \<Rightarrow> pyval" where
  "Module_to_dict m = PDict
     [(''name'', PStr (m_name m)),
      (''type'', PStr (ModuleType_value (m_type m))),
      (''width'', PInt (m_width m)),
      (''height'', PInt (m_height m)),
      (''exec_time'', PInt (m_exec_time m)),
      (''position'', (case m_position m of None \<Rightarrow> PNone | Some p \<Rightarrow> of_pair p))]"

definition Module_from_dict :: "pyval \<Rightarrow> error + Module" where
  "Module_from_dict data =
     ebind (ebind (getitem data ''name'') as_str) (\<lambda>n.
     ebind (ebind (getitem data ''type'') ModuleType_of) (\<lambda>t.
     ebind (ebind (getitem data ''width'') as_int) (\<lambda>w.
     ebind (ebind (getitem data ''height'') as_int) (\<lambda>h.
     ebind (ebind (getitem data ''exec_time'') as_int) (\<lambda>e.
     ebind (ebind (dict_get data ''position'' PNone) (\<lambda>v.
              if truthy v
              then ebind (ebind (getitem data ''position'') as_pair) (\<lambda>p. Inr (Some p))
              else Inr None)) (\<lambda>pos.
     Inr \<lparr>m_name = n, m_type = t, m_width = w, m_height = h, m_exec_time = e,
          m_position = pos\<rparr>))))))"

definition Operation_to_dict :: "Operation \<Rightarrow> pyval" where
  "Operation_to_dict op = PDict
     [(''id'', PInt (op_id op)),
      (''op_type'', PStr (op_type op)),
      (''module_type'', PStr (module_type op)),
      (''dependencies'', PSeq (map PInt (dependencies op))),
      (''duration'', of_opt_int (duration op)),
      (''inputs'', PSeq (map PInt (inputs op))),
      (''outputs'', PSeq (map PInt (outputs op)))]"

definition Operation_from_dict :: "pyval \<Rightarrow> error + Operation" where
  "Operation_from_dict data =
     ebind (ebind (getitem data ''id'') as_int) (\<lambda>i.
     ebind (ebind (getitem data ''op_type'') as_str) (\<lambda>ot.
     ebind (ebind (getitem data ''module_type'') as_str) (\<lambda>mt.
     ebind (ebind (dict_get data ''dependencies'' (PSeq [])) as_int_list) (\<lambda>deps.
     ebind (ebind (dict_get data ''duration'' PNone) as_opt_int) (\<lambda>dur.
     ebind (ebind (dict_get data ''inputs'' (PSeq [])) as_int_list) (\<lambda>ins.
     ebind (ebind (dict_get data ''outputs'' (PSeq [])) as_int_list) (\<lambda>outs.
     Inr \<lparr>op_id = i, op_type = ot, module_type = mt, dependencies = deps,
          duration = dur, inputs = ins, outputs = outs\<rparr>)))))))"

definition Droplet_to_dict :: "Droplet \<Rightarrow> pyval" where
  "Droplet_to_dict d = PDict
     [(''id'', PInt (d_id d)),
      (''start'', of_pair (d_start d)),
      (''end'', of_pair (d_end d)),
      (''start_time'', PInt (start_time d)),
      (''deadline'', PInt (deadline d)),
      (''operation_id'', of_opt_int (operation_id d)),
      (''volume'', PFloat (volume d)),
      (''path'', PSeq (map of_triple (d_path d)))]"

definition Droplet_from_dict :: "pyval \<Rightarrow> error + Droplet" where
  "Droplet_from_dict data =
     ebind (ebind (getitem data ''id'') as_int) (\<lambda>i.
     ebind (ebind (getitem data ''start'') as_pair) (\<lambda>s.
     ebind (ebind (getitem data ''end'') as_pair) (\<lambda>e.
     ebind (ebind (getitem data ''start_time'') as_int) (\<lambda>st.
     ebind (ebind (getitem data ''deadline'') as_int) (\<lambda>dl.
     ebind (ebind (dict_get data ''operation_id'' PNone) as_opt_int) (\<lambda>oi.
     ebind (ebind (dict_get data ''volume'' (PFloat 1)) as_float) (\<lambda>vol.
     ebind (contains_key data ''path'') (\<lambda>has_path.
     ebind (if has_path
            then ebind (ebind (getitem data ''path'') as_seq) (emap as_triple)
            else Inr []) (\<lambda>pth.
     Inr \<lparr>d_id = i, d_start = s, d_end = e, start_time = st, deadline = dl,
          operation_id = oi, volume = vol, d_path = pth\<rparr>)))))))))"

definition to_dict :: "DMFBProblem \<Rightarrow> pyval" where
  "to_dict p = PDict
     [(''name'', PStr (p_name p)),
      (''chip_width'', PInt (chip_width p)),
      (''chip_height'', PInt (chip_height p)),
      (''modules'', PDict (map (\<lambda>(k, v). (k, Module_to_dict v)) (modules p))),
      (''operations'', PSeq (map Operation_to_dict (operations p))),
      (''droplets'',
         (case droplets p of
            None \<Rightarrow> PNone
          | Some ds \<Rightarrow> if ds \<noteq> [] then PSeq (map Droplet_to_dict ds) else PNone))]"

definition from_dict :: "pyval \<Rightarrow> error + DMFBProblem" where
  "from_dict data =
     ebind (ebind (dict_get data ''name'' (PStr ''unnamed'')) as_str) (\<lambda>n.
     ebind (ebind (getitem data ''chip_width'') as_int) (\<lambda>w.
     ebind (ebind (getitem data ''chip_height'') as_int) (\<lambda>h.
     ebind (ebind (ebind (getitem data ''modules'') dict_items)
              (emap (\<lambda>(k, v). ebind (Module_from_dict v) (\<lambda>m. Inr (k, m))))) (\<lambda>ms.
     ebind (ebind (ebind (getitem data ''operations'') as_seq)
              (emap Operation_from_dict)) (\<lambda>ops.
     ebind (ebind (dict_get data ''droplets'' PNone) (\<lambda>v.
              if truthy v
              then ebind (ebind (ebind (getitem data ''droplets'') as_seq)
                            (emap Droplet_from_dict)) (\<lambda>ds. Inr (Some ds))
              else Inr None)) (\<lambda>ds.
     new_DMFBProblem n w h ms ops ds))))))"

subsection \<open>\<^verbatim>\<open>DMFBProblem.topological_sort\<close>\<close>

text \<open>
  Keys of the dict \<^verbatim>\<open>{k: ... for k in ks}\<close>, in insertion order: a key that comes
  again keeps its first place.
\<close>

fun dict_keys :: "int list \<Rightarrow> int list" where
  "dict_keys [] = []"
| "dict_keys (k # ks) = k # removeAll k (dict_keys ks)"

text \<open>
  \<^verbatim>\<open>in_degree\<close> is a dict whose keys are the operation ids; it is read and written
  at operation ids only, so it is a function here, with the keys kept apart.
\<close>

definition init_in_degree :: "Operation list \<Rightarrow> int \<Rightarrow> int" where
  "init_in_degree ops =
     fold (\<lambda>op deg. fold (\<lambda>dep d. d(op_id op := d (op_id op) + 1)) (dependencies op) deg)
       ops (\<lambda>_. 0)"

text \<open>One pass of the inner \<^verbatim>\<open>for op in self.operations\<close> of Kahn's loop.\<close>

definition kahn_visit :: "int \<Rightarrow> Operation \<Rightarrow> (int \<Rightarrow> int) \<times> int list \<Rightarrow> (int \<Rightarrow> int) \<times> int list"
  where
  "kahn_visit i op = (\<lambda>(deg, queue).
     if i \<in> set (dependencies op)
     then (let deg' = deg(op_id op := deg (op_id op) - 1)
           in if deg' (op_id op) = 0 then (deg', queue @ [op_id op]) else (deg', queue))
     else (deg, queue))"

definition kahn_potential :: "Operation list \<Rightarrow> (int \<Rightarrow> int) \<Rightarrow> int list \<Rightarrow> nat" where
  "kahn_potential ops deg queue =
     length queue + card {k \<in> op_id ` set ops. 1 \<le> deg k}"

lemma kahn_visit_potential:
  assumes "finite K" "op_id op \<in> K" "kahn_visit i op (deg, q) = (deg', q')"
  shows "length q' + card {k \<in> K. 1 \<le> deg' k} \<le> length q + card {k \<in> K. 1 \<le> deg k}"
proof (cases "i \<in> set (dependencies op)")
  case False
  with assms show ?thesis by (simp add: kahn_visit_def)
next
  case True
  let ?j = "op_id op"
  have deg': "deg' = deg(?j := deg ?j - 1)"
    using assms(3) True by (auto simp: kahn_visit_def Let_def split: if_splits)
  have sub: "{k \<in> K. 1 \<le> deg' k} \<subseteq> {k \<in> K. 1 \<le> deg k}"
    by (auto simp: deg' split: if_splits)
  have fin: "finite {k \<in> K. 1 \<le> deg k}" using assms(1) by simp
  show ?thesis
  proof (cases "deg ?j - 1 = 0")
    case False
    then have "q' = q" using assms(3) True by (auto simp: kahn_visit_def Let_def)
    with card_mono [OF fin sub] show ?thesis by simp
  next
    case z: True
    then have q': "q' = q @ [?j]" using assms(3) True by (auto simp: kahn_visit_def Let_def)
    have "?j \<in> {k \<in> K. 1 \<le> deg k}" using z assms(2) by simp
    moreover have "?j \<notin> {k \<in> K. 1 \<le> deg' k}" using z by (simp add: deg')
    ultimately have "{k \<in> K. 1 \<le> deg' k} \<subset> {k \<in> K. 1 \<le> deg k}"
      using sub by blast
    from psubset_card_mono [OF fin this] show ?thesis by (simp add: q')
  qed
qed

lemma kahn_fold_potential:
  assumes "finite K" "op_id ` set xs \<subseteq> K" "fold (kahn_visit i) xs (deg, q) = (deg', q')"
  shows "length q' + card {k \<in> K. 1 \<le> deg' k} \<le> length q + card {k \<in> K. 1 \<le> deg k}"
  using assms(2,3)
proof (induction xs arbitrary: deg q)
  case Nil
  then show ?case by simp
next
  case (Cons x xs)
  obtain d1 q1 where s: "kahn_visit i x (deg, q) = (d1, q1)" by (cases "kahn_visit i x (deg, q)")
  from Cons.prems have "fold (kahn_visit i) xs (d1, q1) = (deg', q')" by (simp add: s)
  from Cons.IH [OF _ this] Cons.prems(1)
  have "length q' + card {k \<in> K. 1 \<le> deg' k} \<le> length q1 + card {k \<in> K. 1 \<le> d1 k}"
    by simp
  moreover from kahn_visit_potential [OF assms(1) _ s] Cons.prems(1)
  have "length q1 + card {k \<in> K. 1 \<le> d1 k} \<le> length q + card {k \<in> K. 1 \<le> deg k}"
    by simp
  ultimately show ?case by simp
qed

lemma kahn_fold_potential_le:
  "fold (kahn_visit i) ops (deg, q) = (deg', q') \<Longrightarrow>
     kahn_potential ops deg' q' \<le> kahn_potential ops deg q"
  using kahn_fold_potential [of "op_id ` set ops" ops i deg q deg' q']
  by (simp add: kahn_potential_def)

function kahn_loop ::
  "Operation list \<Rightarrow> (int \<Rightarrow> int) \<Rightarrow> int list \<Rightarrow> int list \<Rightarrow> int list" where
  "kahn_loop ops deg [] result = result"
| "kahn_loop ops deg (i # queue) result =
     (case fold (kahn_visit i) ops (deg, queue) of
        (deg', queue') \<Rightarrow> kahn_loop ops deg' queue' (result @ [i]))"
  by pat_completeness auto
termination
  apply (relation "measure (\<lambda>(ops, deg, queue, result). kahn_potential ops deg queue)")
   apply simp
  apply (drule sym)
  apply (drule kahn_fold_potential_le)
  apply (simp add: kahn_potential_def)
  done

definition topological_sort :: "DMFBProblem \<Rightarrow> error + int list" where
  "topological_sort p =
     (let in_degree = init_in_degree (operations p);
          queue = filter (\<lambda>k. in_degree k = 0) (dict_keys (map op_id (operations p)));
          result = kahn_loop (operations p) in_degree queue []
      in if length result \<noteq> length (operations p)
         then Inl (ValueError Dependency_graph_contains_cycles)
         else Inr result)"


section \<open>List scheduler (src/baseline/scheduling_list.py)\<close>

text \<open>\<^verbatim>\<open>max(...)\<close> and \<^verbatim>\<open>min(...)\<close> of Python: an empty argument raises.\<close>

fun py_max :: "int list \<Rightarrow> error + int" where
  "py_max [] = Inl (ValueError Empty_sequence_argument)"
| "py_max (x # xs) = Inr (fold max xs x)"

fun py_min :: "int list \<Rightarrow> error + int" where
  "py_min [] = Inl (ValueError Empty_sequence_argument)"
| "py_min (x # xs) = Inr (fold min xs x)"

text \<open>
  \<^verbatim>\<open>get_critical_path_length\<close>. \<^verbatim>\<open>next(o for o in ... if o.id == op_id)\<close> is the
  first operation with the id and raises \<^verbatim>\<open>StopIteration\<close> when there is none.
\<close>

fun earliest_start_sweep ::
  "DMFBProblem \<Rightarrow> int list \<Rightarrow> (int \<Rightarrow> int) \<Rightarrow> error + (int \<Rightarrow> int)" where
  "earliest_start_sweep p [] es = Inr es"
| "earliest_start_sweep p (i # topo) es =
     (case List.find (\<lambda>o'. op_id o' = i) (operations p) of
        None \<Rightarrow> Inl StopIteration
      | Some op \<Rightarrow>
          ebind (get_duration op (modules p)) (\<lambda>dur.
            let finish_time = es i + dur
            in earliest_start_sweep p topo
                 (fold (\<lambda>succ a. if i \<in> set (dependencies succ)
                                   then a(op_id succ := max (a (op_id succ)) finish_time) else a)
                    (operations p) es)))"

definition get_critical_path_length :: "DMFBProblem \<Rightarrow> error + int" where
  "get_critical_path_length p =
     ebind (topological_sort p) (\<lambda>topo_order.
     ebind (earliest_start_sweep p topo_order (\<lambda>_. 0)) (\<lambda>es.
     ebind (emap (\<lambda>op. ebind (get_duration op (modules p)) (\<lambda>d. Inr (es (op_id op) + d)))
              (operations p)) py_max))"


text \<open>
  \<^verbatim>\<open>self.op_map = {op.id: op for op in problem.operations}\<close>: of two operations
  with one id the later one stays. \<^verbatim>\<open>self.op_map[i]\<close> raises for a missing key.
\<close>

definition op_map :: "DMFBProblem \<Rightarrow> int \<Rightarrow> Operation option" where
  "op_map p = map_of (rev (map (\<lambda>op. (op_id op, op)) (operations p)))"

definition op_map_get :: "DMFBProblem \<Rightarrow> int \<Rightarrow> error + Operation" where
  "op_map_get p i = (case op_map p i of None \<Rightarrow> Inl (KeyError_id i) | Some op \<Rightarrow> Inr op)"

text \<open>
  The forward sweep of \<^verbatim>\<open>_compute_asap\<close>. The dicts \<^verbatim>\<open>asap\<close> and \<^verbatim>\<open>alap\<close> have
  the operation ids as keys and are functions here, as \<^verbatim>\<open>in_degree\<close> is.
\<close>

fun asap_sweep :: "DMFBProblem \<Rightarrow> int list \<Rightarrow> (int \<Rightarrow> int) \<Rightarrow> error + (int \<Rightarrow> int)" where
  "asap_sweep p [] asap = Inr asap"
| "asap_sweep p (i # topo) asap =
     ebind (op_map_get p i) (\<lambda>op.
     ebind (get_duration op (modules p)) (\<lambda>dur.
       let finish_time = asap i + dur
       in asap_sweep p topo
            (fold (\<lambda>succ a. if i \<in> set (dependencies succ)
                              then a(op_id succ := max (a (op_id succ)) finish_time) else a)
               (operations p) asap)))"

definition compute_asap :: "DMFBProblem \<Rightarrow> error + (int \<Rightarrow> int)" where
  "compute_asap p =
     ebind (topological_sort p) (\<lambda>topo_order. asap_sweep p topo_order (\<lambda>_. 0))"

fun alap_sweep :: "DMFBProblem \<Rightarrow> int list \<Rightarrow> (int \<Rightarrow> int) \<Rightarrow> error + (int \<Rightarrow> int)" where
  "alap_sweep p [] alap = Inr alap"
| "alap_sweep p (i # topo) alap =
     ebind (op_map_get p i) (\<lambda>op.
     ebind (get_duration op (modules p)) (\<lambda>dur.
       let successors = filter (\<lambda>o'. i \<in> set (dependencies o')) (operations p)
       in if successors \<noteq> []
          then ebind (py_min (map (\<lambda>s. alap (op_id s)) successors)) (\<lambda>min_succ_start.
                 alap_sweep p topo (alap(i := min_succ_start - dur)))
          else alap_sweep p topo alap))"

definition compute_alap :: "DMFBProblem \<Rightarrow> error + (int \<Rightarrow> int)" where
  "compute_alap p =
     ebind (compute_asap p) (\<lambda>asap.
     ebind (emap (\<lambda>op. ebind (get_duration op (modules p)) (\<lambda>d. Inr (asap (op_id op) + d)))
              (operations p)) (\<lambda>finishes.
     ebind (py_max finishes) (\<lambda>cp_length.
     ebind (topological_sort p) (\<lambda>topo_order.
       alap_sweep p (rev topo_order) (\<lambda>_. cp_length)))))"

text \<open>
  A scheduler object. \<open>recursion_limit\<close> is the depth at which the interpreter stops the
  recursion of \<^verbatim>\<open>_longest_path_to_sink\<close> with a \<^verbatim>\<open>RecursionError\<close>; it is a
  setting of the interpreter, not of the repository.
\<close>

record ListScheduler =
  problem :: DMFBProblem
  module_instances :: "string \<Rightarrow> int option"
  asap :: "int \<Rightarrow> int"
  alap :: "int \<Rightarrow> int"
  recursion_limit :: nat

text \<open>\<^verbatim>\<open>ListScheduler.__init__\<close>; \<^verbatim>\<open>module_instances=None\<close> is the empty map.\<close>

definition new_ListScheduler ::
  "nat \<Rightarrow> DMFBProblem \<Rightarrow> (string \<Rightarrow> int option) \<Rightarrow> error + ListScheduler" where
  "new_ListScheduler limit p instances =
     ebind (compute_asap p) (\<lambda>a.
     ebind (compute_alap p) (\<lambda>l.
       Inr \<lparr>problem = p, module_instances = instances, asap = a, alap = l,
            recursion_limit = limit\<rparr>))"

text \<open>
  \<^verbatim>\<open>_longest_path_to_sink\<close>. The memo dict is created anew by every outer call and only
  saves repeated work, so the function is the plain recursion over the successors, cut
  off at the recursion limit.
\<close>

fun longest_path_to_sink :: "nat \<Rightarrow> DMFBProblem \<Rightarrow> int \<Rightarrow> error + int" where
  "longest_path_to_sink 0 p i = Inl RecursionError"
| "longest_path_to_sink (Suc n) p i =
     ebind (op_map_get p i) (\<lambda>op.
     ebind (get_duration op (modules p)) (\<lambda>dur.
       let successors = filter (\<lambda>o'. i \<in> set (dependencies o')) (operations p)
       in if successors = [] then Inr dur
          else ebind (emap (\<lambda>s. longest_path_to_sink n p (op_id s)) successors) (\<lambda>paths.
               ebind (py_max paths) (\<lambda>max_succ_path. Inr (dur + max_succ_path)))))"

text \<open>\<^verbatim>\<open>_calculate_priorities\<close>: a dict from operation id to priority.\<close>

fun calculate_priorities ::
  "ListScheduler \<Rightarrow> string \<Rightarrow> Operation list \<Rightarrow> (int \<Rightarrow> int) \<Rightarrow> error + (int \<Rightarrow> int)" where
  "calculate_priorities s strategy [] priorities = Inr priorities"
| "calculate_priorities s strategy (op # ops) priorities =
     (let i = op_id op in
      if strategy = ''asap''
        then calculate_priorities s strategy ops (priorities(i := - asap s i))
      else if strategy = ''alap''
        then calculate_priorities s strategy ops (priorities(i := - alap s i))
      else if strategy = ''mobility''
        then calculate_priorities s strategy ops (priorities(i := - (alap s i - asap s i)))
      else if strategy = ''critical_path''
        then ebind (longest_path_to_sink (recursion_limit s) (problem s) i) (\<lambda>cp_len.
               calculate_priorities s strategy ops (priorities(i := cp_len)))
      else calculate_priorities s strategy ops (priorities(i := - i)))"

text \<open>
  The state of the main loop of \<^verbatim>\<open>solve\<close>. \<open>schedule\<close> is the dict
  \<^verbatim>\<open>op_id -> (start, end)\<close> in insertion order; \<open>module_available\<close> is a
  \<^verbatim>\<open>defaultdict(list)\<close>, so a type never stored reads as the empty list.
\<close>

record sched_state =
  schedule :: "(int \<times> int \<times> int) list"
  completed :: "int set"
  module_available :: "string \<Rightarrow> int list"
  current_time :: int

definition init_module_available :: "ListScheduler \<Rightarrow> string \<Rightarrow> int list" where
  "init_module_available s mtype =
     (if mtype \<in> fst ` set (modules (problem s))
      then (case module_instances s mtype of
              None \<Rightarrow> [0]
            | Some count \<Rightarrow> replicate (nat count) 0)
      else [])"

definition ready_ops :: "ListScheduler \<Rightarrow> sched_state \<Rightarrow> int list" where
  "ready_ops s st =
     map op_id (filter (\<lambda>op.
        \<not> (op_id op \<in> completed st \<or> op_id op \<in> fst ` set (schedule st)) \<and>
        (\<forall>dep \<in> set (dependencies op). dep \<in> completed st))
      (operations (problem s)))"

text \<open>
  The clock advance: \<^verbatim>\<open>current_time = min(end ... if op_id not in completed)\<close>, then
  every scheduled operation that ends by then is marked completed.
\<close>

definition advance_time :: "sched_state \<Rightarrow> error + sched_state" where
  "advance_time st =
     ebind (py_min (map (\<lambda>(i, b, e). e)
                     (filter (\<lambda>(i, b, e). i \<notin> completed st) (schedule st)))) (\<lambda>t.
       Inr (st\<lparr>current_time := t,
               completed := fold (\<lambda>(i, b, e) c. if e \<le> t \<and> i \<notin> c then insert i c else c)
                              (schedule st) (completed st)\<rparr>))"

text \<open>The index \<^verbatim>\<open>xs.index(v)\<close> of the first occurrence.\<close>

fun index_of :: "int list \<Rightarrow> int \<Rightarrow> nat" where
  "index_of [] v = 0"
| "index_of (x # xs) v = (if x = v then 0 else Suc (index_of xs v))"

text \<open>The body of \<^verbatim>\<open>for op_id in ready\<close>.\<close>

definition schedule_op ::
  "ListScheduler \<Rightarrow> int \<Rightarrow> sched_state \<times> int list \<Rightarrow> error + sched_state \<times> int list" where
  "schedule_op s i = (\<lambda>(st, scheduled_this_cycle).
     ebind (op_map_get (problem s) i) (\<lambda>op.
     ebind (get_duration op (modules (problem s))) (\<lambda>dur.
       let mtype = module_type op;
           earliest_dep =
             fold (\<lambda>dep_id e. case map_of (schedule st) dep_id of
                                 Some (b, e') \<Rightarrow> max e e' | None \<Rightarrow> e)
               (dependencies op) (current_time st)
       in ebind (case module_instances s mtype of
                   None \<Rightarrow> Inr (earliest_dep, module_available st)
                 | Some count \<Rightarrow>
                     ebind (py_min (module_available st mtype)) (\<lambda>earliest_avail.
                       let start = max earliest_dep earliest_avail;
                           idx = index_of (module_available st mtype) earliest_avail
                       in Inr (start, (module_available st)
                                 (mtype := (module_available st mtype)[idx := start + dur]))))
            (\<lambda>(start, avail).
               let end_time = start + dur
               in Inr (st\<lparr>schedule := AList.update i (start, end_time) (schedule st),
                          module_available := avail,
                          completed := (if end_time \<le> current_time st
                                        then insert i (completed st) else completed st)\<rparr>,
                       scheduled_this_cycle @ [i])))))"

fun schedule_ready ::
  "ListScheduler \<Rightarrow> int list \<Rightarrow> sched_state \<times> int list \<Rightarrow> error + sched_state \<times> int list" where
  "schedule_ready s [] acc = Inr acc"
| "schedule_ready s (i # ready) acc =
     ebind (schedule_op s i acc) (schedule_ready s ready)"

text \<open>
  One turn of \<^verbatim>\<open>while len(completed) < len(self.problem.operations)\<close>. With nothing
  ready and nothing scheduled the Python \<^verbatim>\<open>continue\<close>s with the state as it is.
\<close>

definition solve_step :: "ListScheduler \<Rightarrow> (int \<Rightarrow> int) \<Rightarrow> sched_state \<Rightarrow> error + sched_state" where
  "solve_step s priorities st =
     (let ready = ready_ops s st in
      if ready = []
      then (if schedule st \<noteq> [] then advance_time st else Inr st)
      else
        ebind (schedule_ready s (sort_key (\<lambda>i. - priorities i) ready) (st, []))
          (\<lambda>(st', scheduled_this_cycle).
             if scheduled_this_cycle = []
             then (if schedule st' \<noteq> [] then advance_time st'
                   else Inr (st'\<lparr>current_time := current_time st' + 1\<rparr>))
             else Inr st'))"

partial_function (option) solve_loop ::
  "ListScheduler \<Rightarrow> (int \<Rightarrow> int) \<Rightarrow> sched_state \<Rightarrow> (error + sched_state) option" where
  "solve_loop s priorities st =
     (if card (completed st) < length (operations (problem s))
      then (case solve_step s priorities st of
              Inl e \<Rightarrow> Some (Inl e)
            | Inr st' \<Rightarrow> solve_loop s priorities st')
      else Some (Inr st))"

declare solve_loop.simps [code]

text \<open>The usage statistics: per module type, \<open>(used_time, total_time)\<close>.\<close>

definition usage_add :: "string \<Rightarrow> int \<Rightarrow> (string \<times> int \<times> int) list \<Rightarrow> (string \<times> int \<times> int) list"
  where
  "usage_add mtype d usage =
     (case map_of usage mtype of
        None \<Rightarrow> usage @ [(mtype, (d, 0))]
      | Some (used, tot) \<Rightarrow> AList.update mtype (used + d, tot) usage)"

fun module_usage_of ::
  "ListScheduler \<Rightarrow> (int \<times> int \<times> int) list \<Rightarrow> (string \<times> int \<times> int) list \<Rightarrow>
   error + (string \<times> int \<times> int) list" where
  "module_usage_of s [] usage = Inr usage"
| "module_usage_of s ((i, b, e) # sched) usage =
     ebind (op_map_get (problem s) i) (\<lambda>op.
       module_usage_of s sched (usage_add (module_type op) (e - b) usage))"

record solve_result =
  r_schedule :: "(int \<times> int \<times> int) list"
  makespan :: int
  module_usage :: "(string \<times> int \<times> int) list"
  priority_strategy :: string

definition finish_solve :: "ListScheduler \<Rightarrow> string \<Rightarrow> sched_state \<Rightarrow> error + solve_result" where
  "finish_solve s strategy st =
     ebind (py_max (map (\<lambda>(i, b, e). e) (schedule st))) (\<lambda>mk.
     ebind (module_usage_of s (schedule st)
              (map (\<lambda>(mtype, m).
                      (mtype, (0, mk * (case module_instances s mtype of
                                          None \<Rightarrow> int (length (operations (problem s)))
                                        | Some count \<Rightarrow> count))))
                 (modules (problem s)))) (\<lambda>usage.
       Inr \<lparr>r_schedule = schedule st, makespan = mk, module_usage = usage,
            priority_strategy = strategy\<rparr>))"

text \<open>
  \<^verbatim>\<open>ListScheduler.solve\<close>. \<open>None\<close> is a run that never returns; \<open>Some (Inl e)\<close> a run
  that raises \<open>e\<close>.
\<close>

definition solve :: "ListScheduler \<Rightarrow> string \<Rightarrow> (error + solve_result) option" where
  "solve s strategy =
     (case calculate_priorities s strategy (operations (problem s)) (\<lambda>_. 0) of
        Inl e \<Rightarrow> Some (Inl e)
      | Inr priorities \<Rightarrow>
          (case solve_loop s priorities
                  \<lparr>schedule = [], completed = {},
                   module_available = init_module_available s, current_time = 0\<rparr> of
             None \<Rightarrow> None
           | Some (Inl e) \<Rightarrow> Some (Inl e)
           | Some (Inr st) \<Rightarrow> Some (finish_solve s strategy st)))"


section \<open>A* router (src/baseline/routing_astar.py)\<close>

type_synonym pos = "int \<times> int \<times> int"

record AStarNode =
  f_score :: int
  g_score :: int
  n_x :: int
  n_y :: int
  n_t :: int

definition node_pos :: "AStarNode \<Rightarrow> pos" where
  "node_pos n = (n_x n, n_y n, n_t n)"

text \<open>
  The router object: the grid, the static obstacles, and the two reservation tables
  (dicts from \<open>(x, y, t)\<close> to a droplet id).
\<close>

record AStarRouter =
  width :: int
  height :: int
  static_obstacles :: "(int \<times> int) set"
  reservations :: "pos \<Rightarrow> int option"
  blocked_cells :: "pos \<Rightarrow> int option"

definition FLUIDIC_CONSTRAINT :: int where
  "FLUIDIC_CONSTRAINT = 1"

definition new_AStarRouter :: "DMFBProblem \<Rightarrow> AStarRouter" where
  "new_AStarRouter p = \<lparr>width = chip_width p, height = chip_height p,
     static_obstacles = {}, reservations = Map.empty, blocked_cells = Map.empty\<rparr>"

definition add_obstacle :: "AStarRouter \<Rightarrow> int \<Rightarrow> int \<Rightarrow> int \<Rightarrow> int \<Rightarrow> AStarRouter" where
  "add_obstacle r x y w h =
     r\<lparr>static_obstacles := static_obstacles r \<union>
          (\<lambda>(dx, dy). (x + dx, y + dy)) ` ({0..<w} \<times> {0..<h})\<rparr>"

definition heuristic :: "int \<times> int \<Rightarrow> int \<times> int \<Rightarrow> int" where
  "heuristic p goal = \<bar>fst p - fst goal\<bar> + \<bar>snd p - snd goal\<bar>"

text \<open>The offsets \<^verbatim>\<open>range(-FLUIDIC_CONSTRAINT, FLUIDIC_CONSTRAINT + 1)\<close>.\<close>

definition fluidic_range :: "int list" where
  "fluidic_range = [- FLUIDIC_CONSTRAINT..FLUIDIC_CONSTRAINT]"

definition not_blocking :: "int option \<Rightarrow> int \<Rightarrow> int set \<Rightarrow> bool" where
  "not_blocking entry droplet_id avoid_droplets =
     (case entry of
        None \<Rightarrow> True
      | Some other_id \<Rightarrow> \<not> (other_id \<noteq> droplet_id \<and> other_id \<notin> avoid_droplets))"

definition is_valid_move ::
  "AStarRouter \<Rightarrow> int \<Rightarrow> int \<Rightarrow> int \<Rightarrow> int \<Rightarrow> int set \<Rightarrow> bool" where
  "is_valid_move r x y t droplet_id avoid_droplets \<longleftrightarrow>
     not_blocking (reservations r (x, y, t)) droplet_id avoid_droplets \<and>
     list_all (\<lambda>dx. list_all (\<lambda>dy.
         (dx = 0 \<and> dy = 0) \<or>
         not_blocking (blocked_cells r (x + dx, y + dy, t)) droplet_id avoid_droplets)
       fluidic_range) fluidic_range"

text \<open>
  The open set is a \<^verbatim>\<open>heapq\<close> of tuples \<open>(f, counter, node)\<close>. Tuples compare by \<open>f\<close>,
  then by the counter, which is different for every push, so \<^verbatim>\<open>heappop\<close> returns the
  one least tuple whatever the layout of the heap; the open set is kept here as the list
  of its tuples.
\<close>

type_synonym open_entry = "int \<times> int \<times> AStarNode"

definition entry_less :: "open_entry \<Rightarrow> open_entry \<Rightarrow> bool" where
  "entry_less a b \<longleftrightarrow>
     fst a < fst b \<or> (fst a = fst b \<and> fst (snd a) < fst (snd b))"

fun heappop :: "open_entry list \<Rightarrow> (open_entry \<times> open_entry list) option" where
  "heappop [] = None"
| "heappop (e # es) =
     (let m = fold (\<lambda>a b. if entry_less a b then a else b) es e
      in Some (m, remove1 m (e # es)))"

text \<open>
  Path reconstruction: \<^verbatim>\<open>while node in came_from: path.append(node); node =
  came_from[node]\<close>. On a \<open>came_from\<close> with a cycle the loop does not end, which is the
  value \<open>None\<close>.
\<close>

partial_function (option) walk_back ::
  "(pos \<Rightarrow> pos option) \<Rightarrow> pos \<Rightarrow> pos list \<Rightarrow> pos list option" where
  "walk_back came_from node path =
     (case came_from node of
        None \<Rightarrow> Some path
      | Some prev \<Rightarrow> walk_back came_from prev (path @ [node]))"

declare walk_back.simps [code]

definition reconstruct_path :: "(pos \<Rightarrow> pos option) \<Rightarrow> pos \<Rightarrow> pos \<Rightarrow> pos list option" where
  "reconstruct_path came_from start node =
     map_option (\<lambda>path. rev (path @ [start])) (walk_back came_from node [])"

text \<open>The body of \<^verbatim>\<open>for dx, dy in [(0, 1), (0, -1), (1, 0), (-1, 0), (0, 0)]\<close>.\<close>

definition moves :: "(int \<times> int) list" where
  "moves = [(0, 1), (0, -1), (1, 0), (-1, 0), (0, 0)]"

definition expand_move ::
  "AStarRouter \<Rightarrow> Droplet \<Rightarrow> int set \<Rightarrow> (pos \<Rightarrow> int option) \<Rightarrow> AStarNode \<Rightarrow> int \<times> int \<Rightarrow>
   open_entry list \<times> (pos \<Rightarrow> pos option) \<times> int \<Rightarrow>
   open_entry list \<times> (pos \<Rightarrow> pos option) \<times> int" where
  "expand_move r droplet avoid_droplets closed_set current = (\<lambda>(dx, dy) (open_set, came_from, counter).
     let nx = n_x current + dx; ny = n_y current + dy; nt = n_t current + 1 in
     if nt > deadline droplet then (open_set, came_from, counter)
     else if \<not> (0 \<le> nx \<and> nx < width r \<and> 0 \<le> ny \<and> ny < height r)
       then (open_set, came_from, counter)
     else if (nx, ny) \<in> static_obstacles r then (open_set, came_from, counter)
     else if \<not> is_valid_move r nx ny nt (d_id droplet) avoid_droplets
       then (open_set, came_from, counter)
     else
       let new_g = g_score current + 1; new_pos = (nx, ny, nt) in
       if (case closed_set new_pos of Some g \<Rightarrow> g \<le> new_g | None \<Rightarrow> False)
         then (open_set, came_from, counter)
       else
         let new_f = new_g + heuristic (nx, ny) (d_end droplet); counter' = counter + 1 in
         (open_set @ [(new_f, counter',
             \<lparr>f_score = new_f, g_score = new_g, n_x = nx, n_y = ny, n_t = nt\<rparr>)],
          came_from(new_pos \<mapsto> node_pos current), counter'))"

text \<open>
  The search can only go on while ticks are left before the deadline: an entry at tick
  \<open>t\<close> stands for at most \<open>entry_weight\<close> pops. This bounds the loop.
\<close>

fun pops_left :: "nat \<Rightarrow> nat" where
  "pops_left 0 = 1"
| "pops_left (Suc n) = 1 + 5 * pops_left n"

definition entry_weight :: "Droplet \<Rightarrow> open_entry \<Rightarrow> nat" where
  "entry_weight droplet e = pops_left (nat (deadline droplet - n_t (snd (snd e))))"

definition open_weight :: "Droplet \<Rightarrow> open_entry list \<Rightarrow> nat" where
  "open_weight droplet open_set = sum_list (map (entry_weight droplet) open_set)"


lemma heappop_member:
  "heappop open_set = Some (m, rest) \<Longrightarrow> m \<in> set open_set \<and> rest = remove1 m open_set"
proof (cases open_set)
  case Nil
  then show "heappop open_set = Some (m, rest) \<Longrightarrow> ?thesis" by simp
next
  case (Cons e es)
  have "fold (\<lambda>a b. if entry_less a b then a else b) xs b \<in> set (b # xs)"
    for xs :: "open_entry list" and b
    by (induction xs arbitrary: b) (auto split: if_splits)
  from this [of es e] Cons
  show "heappop open_set = Some (m, rest) \<Longrightarrow> ?thesis" by (auto simp: Let_def)
qed

lemma heappop_weight:
  assumes "heappop open_set = Some (m, rest)"
  shows "open_weight droplet open_set = entry_weight droplet m + open_weight droplet rest"
  using heappop_member [OF assms] sum_list_map_remove1 [of m open_set "entry_weight droplet"]
  by (simp add: open_weight_def)

definition push_bound :: "Droplet \<Rightarrow> AStarNode \<Rightarrow> nat" where
  "push_bound droplet current =
     (if n_t current + 1 \<le> deadline droplet
      then pops_left (nat (deadline droplet - (n_t current + 1))) else 0)"

lemma expand_move_weight:
  assumes "expand_move r droplet avoid closed_set current mv (open_set, came_from, counter) =
     (open_set', came_from', counter')"
  shows "open_weight droplet open_set' \<le> open_weight droplet open_set + push_bound droplet current"
proof -
  obtain dx dy where mv: "mv = (dx, dy)" by (cases mv)
  show ?thesis
    using assms unfolding mv expand_move_def Let_def
    by (auto simp: open_weight_def entry_weight_def push_bound_def split: if_splits)
qed

lemma expand_moves_weight:
  "fold (expand_move r droplet avoid closed_set current) mvs (open_set, came_from, counter) =
     (open_set', came_from', counter') \<Longrightarrow>
   open_weight droplet open_set' \<le>
     open_weight droplet open_set + length mvs * push_bound droplet current"
proof (induction mvs arbitrary: open_set came_from counter)
  case Nil
  then show ?case by simp
next
  case (Cons mv mvs)
  obtain o1 c1 k1 where s:
    "expand_move r droplet avoid closed_set current mv (open_set, came_from, counter) = (o1, c1, k1)"
    by (cases "expand_move r droplet avoid closed_set current mv (open_set, came_from, counter)")
  from Cons.prems have "fold (expand_move r droplet avoid closed_set current) mvs (o1, c1, k1) =
     (open_set', came_from', counter')" by (simp add: s)
  from Cons.IH [OF this] expand_move_weight [OF s] show ?case by simp
qed

lemma push_bound_less:
  "length moves * push_bound droplet current < entry_weight droplet (f, c, current)"
proof (cases "n_t current + 1 \<le> deadline droplet")
  case False
  then show ?thesis by (cases "nat (deadline droplet - n_t current)")
      (simp_all add: push_bound_def entry_weight_def moves_def)
next
  case True
  then have "nat (deadline droplet - n_t current) = Suc (nat (deadline droplet - (n_t current + 1)))"
    by simp
  with True show ?thesis by (simp add: push_bound_def entry_weight_def moves_def)
qed

lemma pops_left_pos: "0 < pops_left n"
  by (cases n) simp_all

lemma astar_pop_decreases:
  assumes "heappop open_set = Some ((f, c, current), rest)"
  shows "open_weight droplet rest < open_weight droplet open_set"
  using heappop_weight [OF assms, of droplet] pops_left_pos
  by (simp add: entry_weight_def)

lemma astar_expand_decreases:
  assumes "heappop open_set = Some ((f, c, current), rest)"
    and "fold (expand_move r droplet avoid closed_set current) moves (rest, came_from, counter) =
      (open_set', came_from', counter')"
  shows "open_weight droplet open_set' < open_weight droplet open_set"
  using heappop_weight [OF assms(1), of droplet] expand_moves_weight [OF assms(2)]
    push_bound_less [of droplet current f c]
  by linarith

function astar_loop ::
  "AStarRouter \<Rightarrow> Droplet \<Rightarrow> int set \<Rightarrow> pos \<Rightarrow>
   open_entry list \<times> (pos \<Rightarrow> int option) \<times> (pos \<Rightarrow> pos option) \<times> int \<Rightarrow>
   pos list option option" where
  "astar_loop r droplet avoid_droplets start (open_set, closed_set, came_from, counter) =
     (case heappop open_set of
        None \<Rightarrow> Some None
      | Some ((f, c, current), open_set') \<Rightarrow>
          if (n_x current, n_y current) = d_end droplet
          then map_option Some (reconstruct_path came_from start (node_pos current))
          else if (case closed_set (node_pos current) of
                     Some g \<Rightarrow> g \<le> g_score current | None \<Rightarrow> False)
          then astar_loop r droplet avoid_droplets start
                 (open_set', closed_set, came_from, counter)
          else
            (case fold (expand_move r droplet avoid_droplets
                          (closed_set(node_pos current \<mapsto> g_score current)) current)
                    moves (open_set', came_from, counter) of
               (open_set'', came_from', counter') \<Rightarrow>
                 astar_loop r droplet avoid_droplets start
                   (open_set'', closed_set(node_pos current \<mapsto> g_score current),
                    came_from', counter')))"
  by pat_completeness auto
termination
  apply (relation "measure (\<lambda>(r, droplet, avoid_droplets, start, open_set, rest).
      open_weight droplet open_set)")
    apply simp
   apply clarsimp
   apply (erule astar_pop_decreases)
  apply clarsimp
  apply (erule astar_expand_decreases)
  apply (rule sym)
  apply assumption
  done

text \<open>
  \<^verbatim>\<open>route_single\<close>. The argument \<open>avoid_droplets\<close> is the set after
  \<^verbatim>\<open>avoid_droplets or set()\<close>: the empty set stands for \<^verbatim>\<open>None\<close>. The result is \<open>None\<close>
  when the path reconstruction does not end, \<open>Some None\<close> when no path is found, and
  \<open>Some (Some path)\<close> otherwise.
\<close>

definition start_pos :: "Droplet \<Rightarrow> pos" where
  "start_pos droplet = (fst (d_start droplet), snd (d_start droplet), start_time droplet)"

definition route_single :: "AStarRouter \<Rightarrow> Droplet \<Rightarrow> int set \<Rightarrow> pos list option option" where
  "route_single r droplet avoid_droplets =
     astar_loop r droplet avoid_droplets (start_pos droplet)
       ([(heuristic (d_start droplet) (d_end droplet), 0,
          \<lparr>f_score = 0, g_score = 0, n_x = fst (d_start droplet),
           n_y = snd (d_start droplet), n_t = start_time droplet\<rparr>)],
        Map.empty, Map.empty, 0)"

text \<open>\<^verbatim>\<open>_add_reservations\<close> and \<^verbatim>\<open>_remove_reservations\<close>.\<close>

definition block_around :: "int \<Rightarrow> pos \<Rightarrow> (pos \<Rightarrow> int option) \<Rightarrow> (pos \<Rightarrow> int option)" where
  "block_around droplet_id = (\<lambda>(x, y, t) blocked.
     fold (\<lambda>dx b. fold (\<lambda>dy b. b((x + dx, y + dy, t) \<mapsto> droplet_id)) fluidic_range b)
       fluidic_range blocked)"

definition add_reservations :: "AStarRouter \<Rightarrow> int \<Rightarrow> pos list \<Rightarrow> AStarRouter" where
  "add_reservations r droplet_id path =
     fold (\<lambda>p r. r\<lparr>reservations := (reservations r)(p \<mapsto> droplet_id),
                    blocked_cells := block_around droplet_id p (blocked_cells r)\<rparr>) path r"

definition unblock_around :: "int \<Rightarrow> pos \<Rightarrow> (pos \<Rightarrow> int option) \<Rightarrow> (pos \<Rightarrow> int option)" where
  "unblock_around droplet_id = (\<lambda>(x, y, t) blocked.
     fold (\<lambda>dx b. fold (\<lambda>dy b.
             if b (x + dx, y + dy, t) = Some droplet_id then b((x + dx, y + dy, t) := None) else b)
           fluidic_range b)
       fluidic_range blocked)"

definition remove_reservations :: "AStarRouter \<Rightarrow> int \<Rightarrow> pos list \<Rightarrow> AStarRouter" where
  "remove_reservations r droplet_id path =
     fold (\<lambda>p r. r\<lparr>reservations := (if reservations r p = Some droplet_id
                                      then (reservations r)(p := None) else reservations r),
                    blocked_cells := unblock_around droplet_id p (blocked_cells r)\<rparr>) path r"

text \<open>
  \<^verbatim>\<open>_route_prioritized\<close>. \<open>results\<close> is the dict from droplet id to path or \<^verbatim>\<open>None\<close>,
  in insertion order. \<^verbatim>\<open>if path\<close> is false for \<^verbatim>\<open>None\<close> and for the empty list.
\<close>

type_synonym results = "(int \<times> pos list option) list"

definition truthy_path :: "pos list option \<Rightarrow> bool" where
  "truthy_path path = (case path of None \<Rightarrow> False | Some p \<Rightarrow> p \<noteq> [])"

fun route_each ::
  "Droplet list \<Rightarrow> results \<times> AStarRouter \<Rightarrow> (results \<times> AStarRouter) option" where
  "route_each [] acc = Some acc"
| "route_each (droplet # droplet_list) (results, r) =
     (case route_single r droplet {} of
        None \<Rightarrow> None
      | Some path \<Rightarrow>
          if truthy_path path
          then route_each droplet_list
                 (AList.update (d_id droplet) path results,
                  add_reservations r (d_id droplet) (the path))
          else route_each droplet_list (AList.update (d_id droplet) None results, r))"

definition route_prioritized ::
  "AStarRouter \<Rightarrow> Droplet list \<Rightarrow> (results \<times> AStarRouter) option" where
  "route_prioritized r droplet_list =
     route_each (sort_key deadline droplet_list)
       ([], r\<lparr>reservations := Map.empty, blocked_cells := Map.empty\<rparr>)"

text \<open>
  \<^verbatim>\<open>_detect_conflicts\<close>: a conflict is the cell and tick with the two droplet ids
  \<^verbatim>\<open>[other_id, droplet_id]\<close>.
\<close>

type_synonym conflict = "pos \<times> int \<times> int"

definition detect_in_path ::
  "int \<Rightarrow> pos list \<Rightarrow> conflict list \<times> (pos \<Rightarrow> int option) \<Rightarrow>
   conflict list \<times> (pos \<Rightarrow> int option)" where
  "detect_in_path droplet_id path acc =
     fold (\<lambda>key (conflicts, occupancy).
             ((case occupancy key of
                 Some other_id \<Rightarrow> conflicts @ [(key, other_id, droplet_id)]
               | None \<Rightarrow> conflicts),
              occupancy(key \<mapsto> droplet_id))) path acc"

definition detect_conflicts :: "results \<Rightarrow> conflict list" where
  "detect_conflicts results =
     fst (fold (\<lambda>(droplet_id, path) acc.
                  if truthy_path path then detect_in_path droplet_id (the path) acc else acc)
            results ([], Map.empty))"

text \<open>
  One conflict of \<^verbatim>\<open>_route_iterative\<close>: the droplet with the larger id gives up its
  reservations and is routed again, the other droplet being passable.
  \<^verbatim>\<open>next(d for d in droplets if d.id == later_id)\<close> raises \<^verbatim>\<open>StopIteration\<close> when no
  droplet has the id.
\<close>

definition resolve_conflict ::
  "Droplet list \<Rightarrow> conflict \<Rightarrow> results \<times> AStarRouter \<Rightarrow> (error + results \<times> AStarRouter) option"
  where
  "resolve_conflict droplet_list = (\<lambda>(key, other_id, droplet_id) (results, r).
     let later_id = max other_id droplet_id in
     case List.find (\<lambda>d. d_id d = later_id) droplet_list of
       None \<Rightarrow> Some (Inl StopIteration)
     | Some droplet \<Rightarrow>
         let r1 = (case map_of results later_id of
                     Some path \<Rightarrow> if truthy_path path
                                  then remove_reservations r later_id (the path) else r
                   | None \<Rightarrow> r);
             other_droplets = {other_id, droplet_id} - {later_id}
         in case route_single r1 droplet other_droplets of
              None \<Rightarrow> None
            | Some new_path \<Rightarrow>
                if truthy_path new_path
                then Some (Inr (AList.update later_id new_path results,
                                add_reservations r1 later_id (the new_path)))
                else Some (Inr (results, r1)))"

fun resolve_conflicts ::
  "Droplet list \<Rightarrow> conflict list \<Rightarrow> results \<times> AStarRouter \<Rightarrow>
   (error + results \<times> AStarRouter) option" where
  "resolve_conflicts droplet_list [] acc = Some (Inr acc)"
| "resolve_conflicts droplet_list (c # cs) acc =
     (case resolve_conflict droplet_list c acc of
        None \<Rightarrow> None
      | Some (Inl e) \<Rightarrow> Some (Inl e)
      | Some (Inr acc') \<Rightarrow> resolve_conflicts droplet_list cs acc')"

text \<open>\<^verbatim>\<open>for iteration in range(max_iterations)\<close> with its \<^verbatim>\<open>break\<close>.\<close>

fun iterate_routing ::
  "nat \<Rightarrow> Droplet list \<Rightarrow> results \<times> AStarRouter \<Rightarrow> (error + results \<times> AStarRouter) option"
  where
  "iterate_routing 0 droplet_list acc = Some (Inr acc)"
| "iterate_routing (Suc n) droplet_list (results, r) =
     (let conflicts = detect_conflicts results in
      if conflicts = [] then Some (Inr (results, r))
      else case resolve_conflicts droplet_list conflicts (results, r) of
             None \<Rightarrow> None
           | Some (Inl e) \<Rightarrow> Some (Inl e)
           | Some (Inr acc') \<Rightarrow> iterate_routing n droplet_list acc')"

definition route_iterative ::
  "AStarRouter \<Rightarrow> Droplet list \<Rightarrow> nat \<Rightarrow> (error + results \<times> AStarRouter) option" where
  "route_iterative r droplet_list max_iterations =
     (case route_prioritized r droplet_list of
        None \<Rightarrow> None
      | Some acc \<Rightarrow> iterate_routing max_iterations droplet_list acc)"

text \<open>
  \<^verbatim>\<open>route_multiple\<close> returns the dict of results; the reservation tables of the router
  are changed on the way, which \<open>route_multiple_state\<close> keeps.
\<close>

definition route_multiple_state ::
  "AStarRouter \<Rightarrow> Droplet list \<Rightarrow> string \<Rightarrow> (error + results \<times> AStarRouter) option" where
  "route_multiple_state r droplet_list strategy =
     (if strategy = ''prioritized''
      then map_option Inr (route_prioritized r droplet_list)
      else if strategy = ''iterative'' then route_iterative r droplet_list 10
      else Some (Inl (ValueError (Unknown_strategy strategy))))"

definition route_multiple ::
  "AStarRouter \<Rightarrow> Droplet list \<Rightarrow> string \<Rightarrow> (error + results) option" where
  "route_multiple r droplet_list strategy =
     map_option (map_sum id fst) (route_multiple_state r droplet_list strategy)"


section \<open>Example instances\<close>

definition chain_op :: "int \<Rightarrow> int list \<Rightarrow> int option \<Rightarrow> Operation" where
  "chain_op i deps dur = \<lparr>op_id = i, op_type = ''mix'', module_type = ''mixer'',
     dependencies = deps, duration = dur, inputs = [], outputs = []\<rparr>"

text \<open>
  A linear chain of five operations of duration 5 each: operations 1, 3 and 5 take the
  duration from the module, operations 2 and 4 override it.
\<close>

definition chain5 :: DMFBProblem where
  "chain5 = \<lparr>p_name = ''chain'', chip_width = 8, chip_height = 8,
     modules = [(''mixer'', \<lparr>m_name = ''mixer'', m_type = MIXER, m_width = 3,
         m_height = 3, m_exec_time = 5, m_position = None\<rparr>)],
     operations = [chain_op 1 [] None, chain_op 2 [1] (Some 5), chain_op 3 [2] None,
        chain_op 4 [3] (Some 5), chain_op 5 [4] None],
     droplets = None\<rparr>"

definition chain5_scheduler :: "nat \<Rightarrow> ListScheduler" where
  "chain5_scheduler limit = \<lparr>problem = chain5, module_instances = Map.empty,
     asap = (\<lambda>_. 0)(2 := 5, 3 := 10, 4 := 15, 5 := 20),
     alap = (\<lambda>_. 25)(4 := 20, 3 := 15, 2 := 10, 1 := 5),
     recursion_limit = limit\<rparr>"

text \<open>One operation followed by two that both wait for it, on a single mixer.\<close>

definition fork3 :: DMFBProblem where
  "fork3 = \<lparr>p_name = ''fork'', chip_width = 8, chip_height = 8,
     modules = [(''mixer'', \<lparr>m_name = ''mixer'', m_type = MIXER, m_width = 3,
         m_height = 3, m_exec_time = 4, m_position = None\<rparr>)],
     operations = [chain_op 1 [] None, chain_op 2 [1] (Some 3), chain_op 3 [1] None],
     droplets = None\<rparr>"

definition fork3_scheduler :: ListScheduler where
  "fork3_scheduler = \<lparr>problem = fork3, module_instances = [''mixer'' \<mapsto> 1],
     asap = (\<lambda>_. 0)(2 := 4, 3 := 4), alap = (\<lambda>_. 8)(1 := 4),
     recursion_limit = 1000\<rparr>"

definition fork3_result :: solve_result where
  "fork3_result = \<lparr>r_schedule = [(1, 0, 4), (3, 4, 8), (2, 8, 11)], makespan = 11,
     module_usage = [(''mixer'', 11, 11)], priority_strategy = ''critical_path''\<rparr>"

subsection \<open>Routing instances\<close>

text \<open>A grid of one row and four columns, with empty tables.\<close>

definition line_router :: AStarRouter where
  "line_router = \<lparr>width = 4, height = 1, static_obstacles = {},
     reservations = Map.empty, blocked_cells = Map.empty\<rparr>"

definition droplet_a :: Droplet where
  "droplet_a = \<lparr>d_id = 1, d_start = (0, 0), d_end = (1, 0), start_time = 0, deadline = 5,
     operation_id = None, volume = 1, d_path = []\<rparr>"


text \<open>A droplet that starts at tick 2, when \<open>droplet_a\<close> has arrived, and moves away.\<close>

definition droplet_c :: Droplet where
  "droplet_c = \<lparr>d_id = 3, d_start = (2, 0), d_end = (3, 0), start_time = 2, deadline = 8,
     operation_id = None, volume = 1, d_path = []\<rparr>"

text \<open>
  A router whose cell \<open>(1, 1)\<close> is a static obstacle and is reserved at tick 7 by droplet 3,
  and a droplet that sits on that cell at tick 7, wants to be there, and has the deadline 5.
\<close>

definition blocked_router :: AStarRouter where
  "blocked_router = \<lparr>width = 4, height = 4, static_obstacles = {(1, 1)},
     reservations = [(1, 1, 7) \<mapsto> 3], blocked_cells = [(1, 1, 7) \<mapsto> 3]\<rparr>"

definition droplet_home :: Droplet where
  "droplet_home = \<lparr>d_id = 2, d_start = (1, 1), d_end = (1, 1), start_time = 7, deadline = 5,
     operation_id = None, volume = 1, d_path = []\<rparr>"


section \<open>Notions of the specification\<close>

text \<open>
  The dependency graph has an edge from each dependency to the operation that names it;
  it contains a cycle when some id reaches itself along one or more edges.
\<close>

definition dep_rel :: "DMFBProblem \<Rightarrow> (int \<times> int) set" where
  "dep_rel p = {(d, op_id op) | d op. op \<in> set (operations p) \<and> d \<in> set (dependencies op)}"

definition has_cycle :: "DMFBProblem \<Rightarrow> bool" where
  "has_cycle p \<longleftrightarrow> (\<exists>k. (k, k) \<in> (dep_rel p)\<^sup>+)"

text \<open>
  Every module type that an operation needs and that the instance map bounds has at
  least one instance and is a type of the library.
\<close>

definition enough_modules :: "ListScheduler \<Rightarrow> bool" where
  "enough_modules s \<longleftrightarrow>
     (\<forall>op \<in> set (operations (problem s)). \<forall>c.
        module_instances s (module_type op) = Some c \<longrightarrow>
        0 < c \<and> module_type op \<in> fst ` set (modules (problem s)))"

subsection \<open>Droplet paths\<close>

text \<open>
  A step of a path: one tick later, and in space one of the four unit moves or a wait.
\<close>

fun step_ok :: "pos \<Rightarrow> pos \<Rightarrow> bool" where
  "step_ok (x, y, t) (x', y', t') \<longleftrightarrow>
     t' = t + 1 \<and> (x' - x, y' - y) \<in> {(1, 0), (-1, 0), (0, 1), (0, -1), (0, 0)}"

definition valid_path :: "Droplet \<Rightarrow> pos list \<Rightarrow> bool" where
  "valid_path droplet path \<longleftrightarrow>
     path \<noteq> [] \<and>
     (\<forall>i. Suc i < length path \<longrightarrow> step_ok (path ! i) (path ! Suc i)) \<and>
     snd (snd (hd path)) = start_time droplet \<and>
     (fst (last path), fst (snd (last path))) = d_end droplet"


section \<open>Validation at construction\<close>

lemma check_dependencies_Inr:
  "check_dependencies S i deps = Inr u \<longleftrightarrow> set deps \<subseteq> S"
  by (induction deps) auto

lemma check_dependencies_Inl:
  "check_dependencies S i deps = Inl e \<Longrightarrow>
     \<exists>d \<in> set deps. d \<notin> S \<and> e = ValueError (Depends_on_unknown_operation i d)"
  by (induction deps) (auto split: if_splits)

lemma check_operations_Inr:
  "check_operations S ops = Inr u \<longleftrightarrow> (\<forall>op \<in> set ops. set (dependencies op) \<subseteq> S)"
  by (induction ops) (auto simp: ebind_eq_Inr check_dependencies_Inr)

lemma check_operations_Inl:
  "check_operations S ops = Inl e \<Longrightarrow>
     \<exists>op \<in> set ops. \<exists>d \<in> set (dependencies op). d \<notin> S \<and>
        e = ValueError (Depends_on_unknown_operation (op_id op) d)"
proof (induction ops)
  case Nil
  then show ?case by simp
next
  case (Cons op ops)
  show ?case
  proof (cases "check_dependencies S (op_id op) (dependencies op)")
    case (Inl e')
    with Cons.prems have "e' = e" by simp
    with Inl check_dependencies_Inl [of S "op_id op" "dependencies op" e]
    show ?thesis by auto
  next
    case (Inr u)
    with Cons show ?thesis by auto
  qed
qed

lemma post_init_Inr:
  "post_init p = Inr u \<longleftrightarrow>
     0 < chip_width p \<and> 0 < chip_height p \<and> operations p \<noteq> [] \<and>
     (\<forall>op \<in> set (operations p). set (dependencies op) \<subseteq> op_id ` set (operations p))"
  by (auto simp: post_init_def check_operations_Inr)

lemma new_DMFBProblem_Inr:
  "new_DMFBProblem n w h ms ops ds = Inr p \<longleftrightarrow>
     p = \<lparr>p_name = n, chip_width = w, chip_height = h, modules = ms,
          operations = ops, droplets = ds\<rparr> \<and>
     0 < w \<and> 0 < h \<and> ops \<noteq> [] \<and>
     (\<forall>op \<in> set ops. set (dependencies op) \<subseteq> op_id ` set ops)"
  unfolding new_DMFBProblem_def Let_def ebind_eq_Inr
  by (auto simp: post_init_Inr)

text \<open>
  C10 (as amended). A constructor call with an empty operation list never yields an
  instance: it raises a \<open>ValueError\<close>, with the message "At least one operation required"
  when both grid dimensions are positive and with the message "Chip dimensions must be
  positive" otherwise, the dimension check being the first. Hence every constructed
  instance has at least one operation.
\<close>

theorem C10_empty_operations_rejected:
  "(w \<le> 0 \<or> h \<le> 0 \<longrightarrow>
      new_DMFBProblem n w h ms [] ds = Inl (ValueError Chip_dimensions_must_be_positive)) \<and>
   (0 < w \<and> 0 < h \<longrightarrow>
      new_DMFBProblem n w h ms [] ds = Inl (ValueError At_least_one_operation_required)) \<and>
   (new_DMFBProblem n w h ms ops ds = Inr p \<longrightarrow> operations p \<noteq> [])"
proof (intro conjI impI)
  show "new_DMFBProblem n w h ms [] ds = Inl (ValueError Chip_dimensions_must_be_positive)"
    if "w \<le> 0 \<or> h \<le> 0"
    using that by (auto simp: new_DMFBProblem_def post_init_def Let_def)
  show "new_DMFBProblem n w h ms [] ds = Inl (ValueError At_least_one_operation_required)"
    if "0 < w \<and> 0 < h"
    using that by (simp add: new_DMFBProblem_def post_init_def Let_def)
  show "operations p \<noteq> []" if "new_DMFBProblem n w h ms ops ds = Inr p"
    using that unfolding new_DMFBProblem_Inr by auto
qed

theorem C10_empty_operations_rejected_witness:
  "((0::int) \<le> 0 \<or> (8::int) \<le> 0) \<and>
   new_DMFBProblem ''t'' 0 8 [] [] None = Inl (ValueError Chip_dimensions_must_be_positive) \<and>
   (0::int) < 8 \<and>
   new_DMFBProblem ''t'' 8 8 [] [] None =
     Inl (ValueError At_least_one_operation_required) \<and>
   new_DMFBProblem ''t'' 8 8 []
      [\<lparr>op_id = 1, op_type = ''mix'', module_type = ''mixer'', dependencies = [],
        duration = Some 5, inputs = [], outputs = []\<rparr>] None =
     Inr \<lparr>p_name = ''t'', chip_width = 8, chip_height = 8, modules = [],
          operations = [\<lparr>op_id = 1, op_type = ''mix'', module_type = ''mixer'',
             dependencies = [], duration = Some 5, inputs = [], outputs = []\<rparr>],
          droplets = None\<rparr> \<and>
   operations \<lparr>p_name = ''t'', chip_width = 8, chip_height = 8, modules = [],
          operations = [\<lparr>op_id = 1, op_type = ''mix'', module_type = ''mixer'',
             dependencies = [], duration = Some 5, inputs = [], outputs = []\<rparr>],
          droplets = None\<rparr> \<noteq> []"
  using C10_empty_operations_rejected [where n = "''t''" and w = 0 and h = 8
      and ms = "[]" and ds = None and ops = "[]"]
    C10_empty_operations_rejected [where n = "''t''" and w = 8 and h = 8
      and ms = "[]" and ds = None and ops =
      "[\<lparr>op_id = 1, op_type = ''mix'', module_type = ''mixer'', dependencies = [],
        duration = Some 5, inputs = [], outputs = []\<rparr>]" and p =
      "\<lparr>p_name = ''t'', chip_width = 8, chip_height = 8, modules = [],
          operations = [\<lparr>op_id = 1, op_type = ''mix'', module_type = ''mixer'',
             dependencies = [], duration = Some 5, inputs = [], outputs = []\<rparr>],
          droplets = None\<rparr>"]
  by (simp add: new_DMFBProblem_def post_init_def Let_def)

text \<open>
  C10 as stated fails for the message: with an empty operation list and a grid width of
  0 the constructor raises "Chip dimensions must be positive", not "At least one
  operation required".
\<close>

theorem C10_message_counterexample:
  "new_DMFBProblem ''t'' 0 8 [] [] None = Inl (ValueError Chip_dimensions_must_be_positive) \<and>
   new_DMFBProblem ''t'' 0 8 [] [] None \<noteq> Inl (ValueError At_least_one_operation_required)"
  by (simp add: new_DMFBProblem_def post_init_def Let_def)

text \<open>
  C3 (as amended). A constructor call with a non-positive grid dimension raises the
  dimension error, and one with positive dimensions and a dependency on an unknown
  operation id raises the unknown-dependency error for the first such dependency met;
  both happen inside the constructor, so no instance reaches a solver. The module
  library is not consulted: whether construction succeeds does not depend on it.
\<close>

theorem C3_validation_at_construction:
  "(w \<le> 0 \<or> h \<le> 0 \<longrightarrow>
      new_DMFBProblem n w h ms ops ds = Inl (ValueError Chip_dimensions_must_be_positive)) \<and>
   (0 < w \<and> 0 < h \<and> (\<exists>op \<in> set ops. \<exists>d \<in> set (dependencies op). d \<notin> op_id ` set ops) \<longrightarrow>
      (\<exists>op \<in> set ops. \<exists>d \<in> set (dependencies op). d \<notin> op_id ` set ops \<and>
         new_DMFBProblem n w h ms ops ds =
           Inl (ValueError (Depends_on_unknown_operation (op_id op) d)))) \<and>
   (isl (new_DMFBProblem n w h ms ops ds) \<longleftrightarrow> isl (new_DMFBProblem n w h ms' ops ds))"
proof (intro conjI impI)
  assume "w \<le> 0 \<or> h \<le> 0"
  then show "new_DMFBProblem n w h ms ops ds =
      Inl (ValueError Chip_dimensions_must_be_positive)"
    by (auto simp: new_DMFBProblem_def post_init_def Let_def)
next
  assume a: "0 < w \<and> 0 < h \<and>
    (\<exists>op \<in> set ops. \<exists>d \<in> set (dependencies op). d \<notin> op_id ` set ops)"
  then have ne: "ops \<noteq> []" by auto
  have "\<not> (\<forall>op \<in> set ops. set (dependencies op) \<subseteq> op_id ` set ops)"
    using a by auto
  then have "\<forall>u. check_operations (op_id ` set ops) ops \<noteq> Inr u"
    by (simp add: check_operations_Inr)
  then obtain e where e: "check_operations (op_id ` set ops) ops = Inl e"
    by (cases "check_operations (op_id ` set ops) ops") auto
  have "new_DMFBProblem n w h ms ops ds = Inl e"
    using a ne e by (simp add: new_DMFBProblem_def post_init_def Let_def)
  with check_operations_Inl [OF e]
  show "\<exists>op \<in> set ops. \<exists>d \<in> set (dependencies op). d \<notin> op_id ` set ops \<and>
         new_DMFBProblem n w h ms ops ds =
           Inl (ValueError (Depends_on_unknown_operation (op_id op) d))"
    by auto
next
  have "isl X \<longleftrightarrow> \<not> (\<exists>p. X = Inr p)" for X :: "error + DMFBProblem"
    by (cases X) auto
  then show "isl (new_DMFBProblem n w h ms ops ds) \<longleftrightarrow>
      isl (new_DMFBProblem n w h ms' ops ds)"
    by (simp add: new_DMFBProblem_Inr)
qed

theorem C3_validation_at_construction_witness:
  "((0::int) \<le> 0 \<or> (8::int) \<le> 0) \<and>
   new_DMFBProblem ''t'' 0 8 [] [] None = Inl (ValueError Chip_dimensions_must_be_positive) \<and>
   (7::int) \<in> set (dependencies \<lparr>op_id = 1, op_type = ''mix'', module_type = ''mixer'',
        dependencies = [7], duration = None, inputs = [], outputs = []\<rparr>) \<and>
   new_DMFBProblem ''t'' 8 8 []
      [\<lparr>op_id = 1, op_type = ''mix'', module_type = ''mixer'', dependencies = [7],
        duration = None, inputs = [], outputs = []\<rparr>] None =
     Inl (ValueError (Depends_on_unknown_operation 1 7))"
  using C3_validation_at_construction [where w = 0 and h = 8 and n = "''t''"
      and ms = "[]" and ops = "[]" and ds = None]
    C3_validation_at_construction [where w = 8 and h = 8 and n = "''t''" and ms = "[]"
      and ds = None and ops =
      "[\<lparr>op_id = 1, op_type = ''mix'', module_type = ''mixer'', dependencies = [7],
        duration = None, inputs = [], outputs = []\<rparr>]"]
  by simp

text \<open>
  C3 as stated fails for the module type: an operation whose module type is not a key
  of the module library is accepted by the constructor.
\<close>

theorem C3_unknown_module_type_counterexample:
  "map_of ([] :: (string \<times> Module) list) ''mixer'' = None \<and>
   new_DMFBProblem ''t'' 8 8 []
      [\<lparr>op_id = 1, op_type = ''mix'', module_type = ''mixer'', dependencies = [],
        duration = None, inputs = [], outputs = []\<rparr>] None =
     Inr \<lparr>p_name = ''t'', chip_width = 8, chip_height = 8, modules = [],
          operations = [\<lparr>op_id = 1, op_type = ''mix'', module_type = ''mixer'',
             dependencies = [], duration = None, inputs = [], outputs = []\<rparr>],
          droplets = None\<rparr>"
  by (simp add: new_DMFBProblem_def post_init_def Let_def)

section \<open>Serialization round trip\<close>

lemma emap_map_inverse:
  "(\<And>x. x \<in> set xs \<Longrightarrow> f (g x) = Inr x) \<Longrightarrow> emap f (map g xs) = Inr xs"
  by (induction xs) simp_all

lemma as_int_list_PInt [simp]: "as_int_list (PSeq (map PInt xs)) = Inr xs"
  by (simp add: as_int_list_def emap_map_inverse)

lemma as_pair_of_pair [simp]: "as_pair (of_pair p) = Inr p"
  by (cases p) simp

lemma as_triple_of_triple [simp]: "as_triple (of_triple p) = Inr p"
  by (cases p) auto

lemma truthy_of_pair [simp]: "truthy (of_pair p)"
  by (cases p) simp

lemma as_opt_int_of_opt_int [simp]: "as_opt_int (of_opt_int v) = Inr v"
  by (cases v) (simp_all add: of_opt_int_def)

lemma ModuleType_of_value [simp]: "ModuleType_of (PStr (ModuleType_value t)) = Inr t"
  by (cases t) (simp_all add: ModuleType_of_def)

lemma Module_round_trip: "Module_from_dict (Module_to_dict m) = Inr m"
  by (cases "m_position m") (simp_all add: Module_from_dict_def Module_to_dict_def)

lemma Operation_round_trip: "Operation_from_dict (Operation_to_dict op) = Inr op"
  by (simp add: Operation_from_dict_def Operation_to_dict_def)

lemma Droplet_round_trip: "Droplet_from_dict (Droplet_to_dict d) = Inr d"
  by (simp add: Droplet_from_dict_def Droplet_to_dict_def emap_map_inverse)

lemma modules_round_trip:
  "emap (\<lambda>(k, v). ebind (Module_from_dict v) (\<lambda>m. Inr (k, m)))
     (map (\<lambda>(k, v). (k, Module_to_dict v)) ms) = Inr ms"
  by (rule emap_map_inverse) (auto simp: Module_round_trip)

lemma from_dict_to_dict:
  "from_dict (to_dict p) =
     new_DMFBProblem (p_name p) (chip_width p) (chip_height p) (modules p) (operations p)
       (if droplets p = Some [] then None else droplets p)"
proof (cases "droplets p")
  case None
  then show ?thesis
    by (simp add: from_dict_def to_dict_def modules_round_trip emap_map_inverse
        Operation_round_trip)
next
  case (Some ds)
  then show ?thesis
    by (cases "ds = []")
      (simp_all add: from_dict_def to_dict_def modules_round_trip emap_map_inverse
        Operation_round_trip Droplet_round_trip)
qed

text \<open>
  C2 (as amended). For every instance that passed construction, \<open>to_dict\<close> followed by
  \<open>from_dict\<close> constructs an instance again, with the same name, grid, modules (name,
  type, dimensions, exec_time, optional position) and operations (dependency lists,
  duration overrides, inputs, outputs), and with the same droplets unless the droplet
  list is the empty list, which comes back as \<open>None\<close>.
\<close>

theorem C2_round_trip:
  "post_init p = Inr () \<Longrightarrow>
     from_dict (to_dict p) =
       Inr (p\<lparr>droplets := (if droplets p = Some [] then None else droplets p)\<rparr>)"
proof -
  assume v: "post_init p = Inr ()"
  let ?ds = "if droplets p = Some [] then None else droplets p"
  have "post_init \<lparr>p_name = p_name p, chip_width = chip_width p,
      chip_height = chip_height p, modules = modules p, operations = operations p,
      droplets = ?ds\<rparr> = Inr ()"
    using v by (simp add: post_init_Inr)
  then have "from_dict (to_dict p) = Inr \<lparr>p_name = p_name p, chip_width = chip_width p,
      chip_height = chip_height p, modules = modules p, operations = operations p,
      droplets = ?ds\<rparr>"
    by (simp add: from_dict_to_dict new_DMFBProblem_def Let_def)
  moreover have "\<lparr>p_name = p_name p, chip_width = chip_width p,
      chip_height = chip_height p, modules = modules p, operations = operations p,
      droplets = ?ds\<rparr> = p\<lparr>droplets := ?ds\<rparr>"
    by simp
  ultimately show ?thesis by simp
qed

theorem C2_round_trip_witness:
  "post_init
     \<lparr>p_name = ''t'', chip_width = 8, chip_height = 8,
      modules = [(''mixer'', \<lparr>m_name = ''mixer'', m_type = MIXER, m_width = 3,
         m_height = 3, m_exec_time = 5, m_position = Some (0, 0)\<rparr>)],
      operations = [\<lparr>op_id = 1, op_type = ''mix'', module_type = ''mixer'',
         dependencies = [], duration = None, inputs = [], outputs = [7]\<rparr>,
        \<lparr>op_id = 2, op_type = ''mix'', module_type = ''mixer'',
         dependencies = [1], duration = Some 0, inputs = [7], outputs = []\<rparr>],
      droplets = Some [\<lparr>d_id = 7, d_start = (0, 0), d_end = (2, 0), start_time = 5,
         deadline = 9, operation_id = Some 2, volume = 1, d_path = [(0, 0, 5)]\<rparr>]\<rparr>
     = Inr () \<and>
   from_dict (to_dict
     \<lparr>p_name = ''t'', chip_width = 8, chip_height = 8,
      modules = [(''mixer'', \<lparr>m_name = ''mixer'', m_type = MIXER, m_width = 3,
         m_height = 3, m_exec_time = 5, m_position = Some (0, 0)\<rparr>)],
      operations = [\<lparr>op_id = 1, op_type = ''mix'', module_type = ''mixer'',
         dependencies = [], duration = None, inputs = [], outputs = [7]\<rparr>,
        \<lparr>op_id = 2, op_type = ''mix'', module_type = ''mixer'',
         dependencies = [1], duration = Some 0, inputs = [7], outputs = []\<rparr>],
      droplets = Some [\<lparr>d_id = 7, d_start = (0, 0), d_end = (2, 0), start_time = 5,
         deadline = 9, operation_id = Some 2, volume = 1, d_path = [(0, 0, 5)]\<rparr>]\<rparr>)
     = Inr
     \<lparr>p_name = ''t'', chip_width = 8, chip_height = 8,
      modules = [(''mixer'', \<lparr>m_name = ''mixer'', m_type = MIXER, m_width = 3,
         m_height = 3, m_exec_time = 5, m_position = Some (0, 0)\<rparr>)],
      operations = [\<lparr>op_id = 1, op_type = ''mix'', module_type = ''mixer'',
         dependencies = [], duration = None, inputs = [], outputs = [7]\<rparr>,
        \<lparr>op_id = 2, op_type = ''mix'', module_type = ''mixer'',
         dependencies = [1], duration = Some 0, inputs = [7], outputs = []\<rparr>],
      droplets = Some [\<lparr>d_id = 7, d_start = (0, 0), d_end = (2, 0), start_time = 5,
         deadline = 9, operation_id = Some 2, volume = 1, d_path = [(0, 0, 5)]\<rparr>]\<rparr>"
proof -
  let ?p = "\<lparr>p_name = ''t'', chip_width = 8, chip_height = 8,
      modules = [(''mixer'', \<lparr>m_name = ''mixer'', m_type = MIXER, m_width = 3,
         m_height = 3, m_exec_time = 5, m_position = Some (0, 0)\<rparr>)],
      operations = [\<lparr>op_id = 1, op_type = ''mix'', module_type = ''mixer'',
         dependencies = [], duration = None, inputs = [], outputs = [7]\<rparr>,
        \<lparr>op_id = 2, op_type = ''mix'', module_type = ''mixer'',
         dependencies = [1], duration = Some 0, inputs = [7], outputs = []\<rparr>],
      droplets = Some [\<lparr>d_id = 7, d_start = (0, 0), d_end = (2, 0), start_time = 5,
         deadline = 9, operation_id = Some 2, volume = 1, d_path = [(0, 0, 5)]\<rparr>]\<rparr>"
  have v: "post_init ?p = Inr ()"
    by (simp add: post_init_def)
  from C2_round_trip [OF v] v show ?thesis by simp
qed

text \<open>
  C2 as stated fails for the droplets: a valid instance whose droplet list is the empty
  list (as the importers build it) is reproduced with \<open>droplets = None\<close>.
\<close>

theorem C2_empty_droplets_counterexample:
  "post_init
     \<lparr>p_name = ''t'', chip_width = 8, chip_height = 8, modules = [],
      operations = [\<lparr>op_id = 1, op_type = ''mix'', module_type = ''mixer'',
         dependencies = [], duration = Some 5, inputs = [], outputs = []\<rparr>],
      droplets = Some []\<rparr> = Inr () \<and>
   from_dict (to_dict
     \<lparr>p_name = ''t'', chip_width = 8, chip_height = 8, modules = [],
      operations = [\<lparr>op_id = 1, op_type = ''mix'', module_type = ''mixer'',
         dependencies = [], duration = Some 5, inputs = [], outputs = []\<rparr>],
      droplets = Some []\<rparr>) = Inr
     \<lparr>p_name = ''t'', chip_width = 8, chip_height = 8, modules = [],
      operations = [\<lparr>op_id = 1, op_type = ''mix'', module_type = ''mixer'',
         dependencies = [], duration = Some 5, inputs = [], outputs = []\<rparr>],
      droplets = None\<rparr> \<and>
   droplets
     \<lparr>p_name = ''t'', chip_width = 8, chip_height = 8, modules = [],
      operations = [\<lparr>op_id = 1, op_type = ''mix'', module_type = ''mixer'',
         dependencies = [], duration = Some 5, inputs = [], outputs = []\<rparr>],
      droplets = None\<rparr> \<noteq> Some ([] :: Droplet list)"
  by (simp add: from_dict_to_dict new_DMFBProblem_def post_init_def Let_def)

section \<open>Topological order and cycles\<close>

lemma set_dict_keys [simp]: "set (dict_keys ks) = set ks"
  by (induction ks) auto

lemma distinct_dict_keys [simp]: "distinct (dict_keys ks)"
  by (induction ks) (auto simp: distinct_removeAll)

definition kahn_inv :: "Operation list \<Rightarrow> (int \<Rightarrow> int) \<Rightarrow> int list \<Rightarrow> int list \<Rightarrow> bool" where
  "kahn_inv ops deg queue result \<longleftrightarrow>
     distinct (result @ queue) \<and> set (result @ queue) \<subseteq> op_id ` set ops \<and>
     (\<forall>k \<in> op_id ` set ops. k \<in> set (result @ queue) \<longleftrightarrow> deg k \<le> 0)"

lemma kahn_visit_inv:
  assumes "kahn_inv ops deg q res" "op \<in> set ops" "kahn_visit i op (deg, q) = (deg', q')"
  shows "kahn_inv ops deg' q' res"
proof (cases "i \<in> set (dependencies op)")
  case False
  with assms show ?thesis by (simp add: kahn_visit_def)
next
  case True
  let ?j = "op_id op"
  have deg': "deg' = deg(?j := deg ?j - 1)"
    using assms(3) True by (auto simp: kahn_visit_def Let_def split: if_splits)
  have j: "?j \<in> op_id ` set ops" using assms(2) by simp
  show ?thesis
  proof (cases "deg ?j - 1 = 0")
    case z: True
    then have q': "q' = q @ [?j]" using assms(3) True by (auto simp: kahn_visit_def Let_def)
    have "\<not> deg ?j \<le> 0" using z by simp
    then have "?j \<notin> set (res @ q)" using assms(1) j unfolding kahn_inv_def by blast
    then show ?thesis
      using assms(1) j z unfolding kahn_inv_def q' deg' by auto
  next
    case nz: False
    then have q': "q' = q" using assms(3) True by (auto simp: kahn_visit_def Let_def)
    show ?thesis
      using assms(1) j nz unfolding kahn_inv_def q' deg' by auto
  qed
qed

lemma kahn_fold_inv:
  assumes "set xs \<subseteq> set ops"
  shows "kahn_inv ops deg q res \<Longrightarrow> fold (kahn_visit i) xs (deg, q) = (deg', q') \<Longrightarrow>
     kahn_inv ops deg' q' res"
  using assms
proof (induction xs arbitrary: deg q)
  case Nil
  then show ?case by simp
next
  case (Cons x xs)
  obtain d1 q1 where s: "kahn_visit i x (deg, q) = (d1, q1)" by (cases "kahn_visit i x (deg, q)")
  have "kahn_inv ops d1 q1 res"
    using kahn_visit_inv [OF Cons.prems(1) _ s] Cons.prems(3) by simp
  moreover have "fold (kahn_visit i) xs (d1, q1) = (deg', q')"
    using Cons.prems(2) by (simp add: s)
  ultimately show ?case using Cons.IH Cons.prems(3) by simp
qed

lemma kahn_loop_inv:
  "kahn_inv ops deg queue result \<Longrightarrow>
     distinct (kahn_loop ops deg queue result) \<and>
     set (kahn_loop ops deg queue result) \<subseteq> op_id ` set ops"
proof (induction ops deg queue result rule: kahn_loop.induct)
  case (1 ops deg result)
  then show ?case by (simp add: kahn_inv_def)
next
  case (2 ops deg i queue result)
  obtain deg' queue' where f: "fold (kahn_visit i) ops (deg, queue) = (deg', queue')"
    by (cases "fold (kahn_visit i) ops (deg, queue)")
  have "kahn_inv ops deg queue (result @ [i])"
    using "2.prems" unfolding kahn_inv_def by auto
  then have "kahn_inv ops deg' queue' (result @ [i])"
    using kahn_fold_inv [OF subset_refl _ f] by simp
  from "2.IH" [OF f [symmetric] this] show ?case by (simp add: f)
qed

lemma init_in_degree_nonneg: "0 \<le> init_in_degree ops k"
proof -
  have a: "0 \<le> fold (\<lambda>dep d. d(j := d j + 1)) deps deg k" if "\<forall>k. 0 \<le> deg k"
    for deps :: "int list" and deg :: "int \<Rightarrow> int" and j k
    using that by (induction deps arbitrary: deg) auto
  have "0 \<le> fold (\<lambda>op deg. fold (\<lambda>dep d. d(op_id op := d (op_id op) + 1)) (dependencies op) deg)
       xs deg k" if "\<forall>k. 0 \<le> deg k" for xs :: "Operation list" and deg :: "int \<Rightarrow> int"
    using that
  proof (induction xs arbitrary: deg)
    case Nil
    then show ?case by simp
  next
    case (Cons x xs)
    show ?case unfolding fold_simps
      by (rule Cons.IH) (use a Cons.prems in blast)
  qed
  then show ?thesis by (simp add: init_in_degree_def)
qed

lemma kahn_inv_init:
  "kahn_inv ops (init_in_degree ops)
     (filter (\<lambda>k. init_in_degree ops k = 0) (dict_keys (map op_id ops))) []"
  using init_in_degree_nonneg [of ops]
  by (auto simp: kahn_inv_def order.antisym)

lemma kahn_result_distinct:
  "distinct (kahn_loop ops (init_in_degree ops)
     (filter (\<lambda>k. init_in_degree ops k = 0) (dict_keys (map op_id ops))) [])"
  and kahn_result_subset:
  "set (kahn_loop ops (init_in_degree ops)
     (filter (\<lambda>k. init_in_degree ops k = 0) (dict_keys (map op_id ops))) []) \<subseteq> op_id ` set ops"
  using kahn_loop_inv [OF kahn_inv_init] by auto

lemma topological_sort_distinct_ids:
  assumes "topological_sort p = Inr topo"
  shows "distinct (map op_id (operations p))" and "set topo = op_id ` set (operations p)"
    and "distinct topo"
proof -
  let ?ops = "operations p"
  let ?r = "kahn_loop ?ops (init_in_degree ?ops)
     (filter (\<lambda>k. init_in_degree ?ops k = 0) (dict_keys (map op_id ?ops))) []"
  from assms have topo: "topo = ?r" and len: "length ?r = length ?ops"
    by (auto simp: topological_sort_def Let_def split: if_splits)
  have d: "distinct ?r" by (rule kahn_result_distinct)
  have sub: "set ?r \<subseteq> op_id ` set ?ops" by (rule kahn_result_subset)
  have "card (set ?r) = length ?ops" using d len by (simp add: distinct_card)
  moreover have "card (op_id ` set ?ops) \<le> length ?ops"
    using card_length [of "map op_id ?ops"] by simp
  moreover have "card (set ?r) \<le> card (op_id ` set ?ops)"
    using sub by (simp add: card_mono)
  ultimately have c: "card (op_id ` set ?ops) = length ?ops" "card (set ?r) = card (op_id ` set ?ops)"
    by auto
  from c(1) show "distinct (map op_id ?ops)"
    by (metis card_distinct length_map set_map)
  from c(2) sub show "set topo = op_id ` set ?ops"
    by (simp add: topo card_subset_eq)
  from d show "distinct topo" by (simp add: topo)
qed


definition on_cycle :: "DMFBProblem \<Rightarrow> int set" where
  "on_cycle p = {k. (k, k) \<in> (dep_rel p)\<^sup>+}"

lemma on_cycle_is_id: "k \<in> on_cycle p \<Longrightarrow> k \<in> op_id ` set (operations p)"
proof -
  assume "k \<in> on_cycle p"
  then have "(k, k) \<in> (dep_rel p)\<^sup>+" by (simp add: on_cycle_def)
  then obtain d where "(d, k) \<in> dep_rel p" by (auto elim: tranclE)
  then show ?thesis by (auto simp: dep_rel_def)
qed

lemma on_cycle_dependency:
  assumes "op_id op \<in> on_cycle p" "op \<in> set (operations p)"
    "distinct (map op_id (operations p))"
  shows "\<exists>d \<in> set (dependencies op). d \<in> on_cycle p"
proof -
  let ?j = "op_id op"
  from assms(1) have "(?j, ?j) \<in> (dep_rel p)\<^sup>+" by (simp add: on_cycle_def)
  then obtain d where d: "(?j, d) \<in> (dep_rel p)\<^sup>*" "(d, ?j) \<in> dep_rel p"
    by (auto elim: tranclE intro: trancl_into_rtrancl)
  from d(2) obtain op' where op': "op' \<in> set (operations p)" "op_id op' = ?j"
    "d \<in> set (dependencies op')"
    by (auto simp: dep_rel_def)
  have "inj_on op_id (set (operations p))" using assms(3) by (simp add: distinct_map)
  with op' assms(2) have "op' = op" by (auto dest: inj_onD)
  moreover have "(d, d) \<in> (dep_rel p)\<^sup>+" using d by (rule rtrancl_into_trancl2 [rotated]) 
  ultimately show ?thesis using op'(3) by (auto simp: on_cycle_def)
qed

lemma fold_in_degree_dep:
  "fold (\<lambda>dep d. d(j := d j + 1)) deps deg = deg(j := deg j + int (length deps))"
  by (induction deps arbitrary: deg) auto

lemma init_in_degree_ge:
  assumes "op \<in> set ops"
  shows "int (length (dependencies op)) \<le> init_in_degree ops (op_id op)"
proof -
  let ?f = "\<lambda>op deg. fold (\<lambda>dep d. d(op_id op := d (op_id op) + 1)) (dependencies op) deg"
  have mono: "deg k \<le> fold ?f xs deg k" for xs and deg :: "int \<Rightarrow> int" and k
  proof (induction xs arbitrary: deg)
    case Nil
    then show ?case by simp
  next
    case (Cons x xs)
    have "deg k \<le> ?f x deg k" by (simp add: fold_in_degree_dep)
    also have "\<dots> \<le> fold ?f xs (?f x deg) k" by (rule Cons.IH)
    finally show ?case by (simp only: fold_simps)
  qed
  have "deg (op_id op) + int (length (dependencies op)) \<le> fold ?f xs deg (op_id op)"
    if "op \<in> set xs" for xs and deg :: "int \<Rightarrow> int"
    using that
  proof (induction xs arbitrary: deg)
    case Nil
    then show ?case by simp
  next
    case (Cons x xs)
    show ?case
    proof (cases "x = op")
      case True
      have "deg (op_id op) + int (length (dependencies op)) = ?f op deg (op_id op)"
        by (simp add: fold_in_degree_dep)
      also have "\<dots> \<le> fold ?f xs (?f op deg) (op_id op)" by (rule mono)
      finally show ?thesis using True by (simp only: fold_simps)
    next
      case False
      with Cons.prems have "op \<in> set xs" by simp
      from Cons.IH [OF this, of "?f x deg"]
      have "?f x deg (op_id op) + int (length (dependencies op))
          \<le> fold ?f (x # xs) deg (op_id op)" by (simp only: fold_simps)
      moreover have "deg (op_id op) \<le> ?f x deg (op_id op)"
        by (simp add: fold_in_degree_dep)
      ultimately show ?thesis by linarith
    qed
  qed
  from this [OF assms, of "\<lambda>_. 0"] show ?thesis by (simp add: init_in_degree_def)
qed

definition pending_le :: "(int \<Rightarrow> int) \<Rightarrow> int list \<Rightarrow> Operation \<Rightarrow> bool" where
  "pending_le deg res op \<longleftrightarrow> int (card (set (dependencies op) - set res)) \<le> deg (op_id op)"

lemma kahn_fold_acyclic:
  assumes "distinct (map op_id (operations p))" "i \<notin> set res"
  shows "operations p = ys @ xs \<Longrightarrow>
     \<forall>op \<in> set ys. pending_le deg (res @ [i]) op \<Longrightarrow>
     \<forall>op \<in> set xs. pending_le deg res op \<Longrightarrow>
     set (res @ [i] @ q) \<inter> on_cycle p = {} \<Longrightarrow>
     fold (kahn_visit i) xs (deg, q) = (deg', q') \<Longrightarrow>
     (\<forall>op \<in> set (operations p). pending_le deg' (res @ [i]) op) \<and>
     set (res @ [i] @ q') \<inter> on_cycle p = {}"
proof (induction xs arbitrary: ys deg q)
  case Nil
  then show ?case by simp
next
  case (Cons x xs)
  let ?j = "op_id x"
  obtain d1 q1 where s: "kahn_visit i x (deg, q) = (d1, q1)" by (cases "kahn_visit i x (deg, q)")
  have f: "fold (kahn_visit i) xs (d1, q1) = (deg', q')" using Cons.prems(5) by (simp add: s)
  have ops: "operations p = (ys @ [x]) @ xs" using Cons.prems(1) by simp
  have xin: "x \<in> set (operations p)" using Cons.prems(1) by simp
  have other: "op_id op \<noteq> ?j" if "op \<in> set ys \<or> op \<in> set xs" for op
    using assms(1) that unfolding Cons.prems(1) by (auto simp: image_iff)
  have x_old: "pending_le deg res x" using Cons.prems(3) by simp
  show ?case
  proof (cases "i \<in> set (dependencies x)")
    case False
    then have eq: "d1 = deg" "q1 = q" using s by (auto simp: kahn_visit_def)
    have "set (dependencies x) - set (res @ [i]) = set (dependencies x) - set res"
      using False by auto
    then have "pending_le deg (res @ [i]) x" using x_old by (simp add: pending_le_def)
    then show ?thesis
      using Cons.IH [OF ops _ _ _ f] Cons.prems(2,3,4) unfolding eq by simp
  next
    case True
    have d1: "d1 = deg(?j := deg ?j - 1)"
      using s True by (auto simp: kahn_visit_def Let_def split: if_splits)
    define A where "A = set (dependencies x) - set (res @ [i])"
    have eq: "set (dependencies x) - set res = insert i A"
      unfolding A_def using True assms(2) by auto
    have "finite A" "i \<notin> A" unfolding A_def by simp_all
    then have "card (insert i A) = Suc (card A)" by (rule card_insert_disjoint)
    then have c: "card (set (dependencies x) - set res) = Suc (card A)"
      by (simp only: eq)
    have "int (card A) \<le> deg ?j - 1"
      using x_old unfolding pending_le_def c by simp
    then have x_new: "pending_le d1 (res @ [i]) x"
      unfolding pending_le_def A_def d1 by simp
    have ys_new: "\<forall>op \<in> set ys. pending_le d1 (res @ [i]) op"
      using Cons.prems(2) other by (auto simp: pending_le_def d1)
    have xs_new: "\<forall>op \<in> set xs. pending_le d1 res op"
      using Cons.prems(3) other by (auto simp: pending_le_def d1)
    have cyc: "set (res @ [i] @ q1) \<inter> on_cycle p = {}"
    proof (cases "deg ?j - 1 = 0")
      case False
      then have "q1 = q" using s True by (auto simp: kahn_visit_def Let_def)
      with Cons.prems(4) show ?thesis by simp
    next
      case z: True
      then have q1: "q1 = q @ [?j]" using s True by (auto simp: kahn_visit_def Let_def)
      have "d1 ?j = 0" using z by (simp add: d1)
      with x_new have "card (set (dependencies x) - set (res @ [i])) = 0"
        by (simp add: pending_le_def)
      then have sub: "set (dependencies x) \<subseteq> set (res @ [i])" by auto
      have "?j \<notin> on_cycle p"
      proof
        assume "?j \<in> on_cycle p"
        from on_cycle_dependency [OF this xin assms(1)]
        obtain d where "d \<in> set (dependencies x)" "d \<in> on_cycle p" by auto
        with sub Cons.prems(4) show False by auto
      qed
      with Cons.prems(4) show ?thesis by (auto simp: q1)
    qed
    from Cons.IH [OF ops _ xs_new cyc f] ys_new x_new show ?thesis by simp
  qed
qed

lemma kahn_loop_acyclic:
  assumes "distinct (map op_id (operations p))"
  shows "kahn_inv ops deg queue result \<Longrightarrow> ops = operations p \<Longrightarrow>
     \<forall>op \<in> set ops. pending_le deg result op \<Longrightarrow>
     set (result @ queue) \<inter> on_cycle p = {} \<Longrightarrow>
     set (kahn_loop ops deg queue result) \<inter> on_cycle p = {}"
proof (induction ops deg queue result rule: kahn_loop.induct)
  case (1 ops deg result)
  then show ?case by simp
next
  case (2 ops deg i queue result)
  obtain deg' queue' where f: "fold (kahn_visit i) ops (deg, queue) = (deg', queue')"
    by (cases "fold (kahn_visit i) ops (deg, queue)")
  have inv: "kahn_inv ops deg queue (result @ [i])"
    using "2.prems"(1) unfolding kahn_inv_def by auto
  then have inv': "kahn_inv ops deg' queue' (result @ [i])"
    using kahn_fold_inv [OF subset_refl _ f] by simp
  have i: "i \<notin> set result" using "2.prems"(1) unfolding kahn_inv_def by auto
  have "(\<forall>op \<in> set (operations p). pending_le deg' (result @ [i]) op) \<and>
     set (result @ [i] @ queue') \<inter> on_cycle p = {}"
    using kahn_fold_acyclic [OF assms i, of "[]" ops deg queue deg' queue']
      "2.prems"(2,3,4) f by simp
  then have "set (kahn_loop ops deg' queue' (result @ [i])) \<inter> on_cycle p = {}"
    using "2.IH" [OF f [symmetric] inv' "2.prems"(2)] "2.prems"(2) by simp
  moreover have "kahn_loop ops deg (i # queue) result =
      kahn_loop ops deg' queue' (result @ [i])"
    by (simp add: f)
  ultimately show ?case by simp
qed

lemma kahn_result_acyclic:
  assumes "distinct (map op_id (operations p))"
  shows "set (kahn_loop (operations p) (init_in_degree (operations p))
     (filter (\<lambda>k. init_in_degree (operations p) k = 0) (dict_keys (map op_id (operations p)))) [])
     \<inter> on_cycle p = {}"
proof (rule kahn_loop_acyclic [OF assms kahn_inv_init refl])
  let ?ops = "operations p"
  show pend: "\<forall>op \<in> set ?ops. pending_le (init_in_degree ?ops) [] op"
  proof
    fix op assume op: "op \<in> set ?ops"
    have "int (card (set (dependencies op))) \<le> int (length (dependencies op))"
      by (simp add: card_length)
    with init_in_degree_ge [OF op] show "pending_le (init_in_degree ?ops) [] op"
      by (simp add: pending_le_def)
  qed
  show "set ([] @ filter (\<lambda>k. init_in_degree ?ops k = 0) (dict_keys (map op_id ?ops)))
      \<inter> on_cycle p = {}"
  proof (rule ccontr)
    assume "\<not> ?thesis"
    then obtain k where k: "k \<in> op_id ` set ?ops" "init_in_degree ?ops k = 0" "k \<in> on_cycle p"
      by auto
    then obtain op where op: "op \<in> set ?ops" "op_id op = k" by auto
    with on_cycle_dependency [OF _ op(1) assms] k(3)
    have "dependencies op \<noteq> []" by auto
    with init_in_degree_ge [OF op(1)] k(2) op(2) show False by simp
  qed
qed

lemma topological_sort_cycle:
  assumes "has_cycle p"
  shows "topological_sort p = Inl (ValueError Dependency_graph_contains_cycles)"
proof -
  let ?ops = "operations p"
  let ?r = "kahn_loop ?ops (init_in_degree ?ops)
     (filter (\<lambda>k. init_in_degree ?ops k = 0) (dict_keys (map op_id ?ops))) []"
  have d: "distinct ?r" by (rule kahn_result_distinct)
  have sub: "set ?r \<subseteq> op_id ` set ?ops" by (rule kahn_result_subset)
  have "length ?r < length ?ops"
  proof (cases "distinct (map op_id ?ops)")
    case False
    then have "card (set (map op_id ?ops)) \<noteq> length (map op_id ?ops)"
      using card_distinct by blast
    then have "card (op_id ` set ?ops) < length ?ops"
      using card_length [of "map op_id ?ops"] by simp
    moreover have "card (set ?r) \<le> card (op_id ` set ?ops)" using sub by (simp add: card_mono)
    ultimately show ?thesis using d by (simp add: distinct_card)
  next
    case True
    from assms obtain k where k: "k \<in> on_cycle p" by (auto simp: has_cycle_def on_cycle_def)
    have "k \<notin> set ?r" using kahn_result_acyclic [OF True] k by auto
    with on_cycle_is_id [OF k] sub have "set ?r \<subset> op_id ` set ?ops" by auto
    then have "card (set ?r) < card (op_id ` set ?ops)" by (simp add: psubset_card_mono)
    then show ?thesis
      using d card_length [of "map op_id ?ops"] by (simp add: distinct_card)
  qed
  then show ?thesis by (simp add: topological_sort_def Let_def)
qed

lemma dep_relI:
  "op \<in> set (operations p) \<Longrightarrow> d \<in> set (dependencies op) \<Longrightarrow> (d, op_id op) \<in> dep_rel p"
  by (auto simp: dep_rel_def)

text \<open>
  C8. When the dependency graph contains a cycle, the topological sort raises the cycle
  error, and so do the critical-path computation and the construction of a scheduler,
  both of which sort first: no critical-path length is returned and no scheduler object
  exists whose scheduling loop could run.
\<close>

theorem C8_cycle_rejected:
  "has_cycle p \<Longrightarrow>
     topological_sort p = Inl (ValueError Dependency_graph_contains_cycles) \<and>
     get_critical_path_length p = Inl (ValueError Dependency_graph_contains_cycles) \<and>
     new_ListScheduler limit p instances = Inl (ValueError Dependency_graph_contains_cycles)"
  by (simp add: topological_sort_cycle get_critical_path_length_def new_ListScheduler_def
      compute_asap_def)

theorem C8_cycle_rejected_witness:
  "has_cycle
     \<lparr>p_name = ''loop'', chip_width = 8, chip_height = 8, modules = [],
      operations = [\<lparr>op_id = 1, op_type = ''mix'', module_type = ''mixer'',
         dependencies = [2], duration = Some 5, inputs = [], outputs = []\<rparr>,
        \<lparr>op_id = 2, op_type = ''mix'', module_type = ''mixer'',
         dependencies = [1], duration = Some 5, inputs = [], outputs = []\<rparr>],
      droplets = None\<rparr> \<and>
   post_init
     \<lparr>p_name = ''loop'', chip_width = 8, chip_height = 8, modules = [],
      operations = [\<lparr>op_id = 1, op_type = ''mix'', module_type = ''mixer'',
         dependencies = [2], duration = Some 5, inputs = [], outputs = []\<rparr>,
        \<lparr>op_id = 2, op_type = ''mix'', module_type = ''mixer'',
         dependencies = [1], duration = Some 5, inputs = [], outputs = []\<rparr>],
      droplets = None\<rparr> = Inr () \<and>
   topological_sort
     \<lparr>p_name = ''loop'', chip_width = 8, chip_height = 8, modules = [],
      operations = [\<lparr>op_id = 1, op_type = ''mix'', module_type = ''mixer'',
         dependencies = [2], duration = Some 5, inputs = [], outputs = []\<rparr>,
        \<lparr>op_id = 2, op_type = ''mix'', module_type = ''mixer'',
         dependencies = [1], duration = Some 5, inputs = [], outputs = []\<rparr>],
      droplets = None\<rparr> = Inl (ValueError Dependency_graph_contains_cycles) \<and>
   new_ListScheduler 1000
     \<lparr>p_name = ''loop'', chip_width = 8, chip_height = 8, modules = [],
      operations = [\<lparr>op_id = 1, op_type = ''mix'', module_type = ''mixer'',
         dependencies = [2], duration = Some 5, inputs = [], outputs = []\<rparr>,
        \<lparr>op_id = 2, op_type = ''mix'', module_type = ''mixer'',
         dependencies = [1], duration = Some 5, inputs = [], outputs = []\<rparr>],
      droplets = None\<rparr> Map.empty = Inl (ValueError Dependency_graph_contains_cycles)"
proof -
  let ?p = "\<lparr>p_name = ''loop'', chip_width = 8, chip_height = 8, modules = [],
      operations = [\<lparr>op_id = 1, op_type = ''mix'', module_type = ''mixer'',
         dependencies = [2], duration = Some 5, inputs = [], outputs = []\<rparr>,
        \<lparr>op_id = 2, op_type = ''mix'', module_type = ''mixer'',
         dependencies = [1], duration = Some 5, inputs = [], outputs = []\<rparr>],
      droplets = None\<rparr>"
  let ?o1 = "\<lparr>op_id = 1, op_type = ''mix'', module_type = ''mixer'',
         dependencies = [2], duration = Some 5, inputs = [], outputs = []\<rparr>"
  let ?o2 = "\<lparr>op_id = 2, op_type = ''mix'', module_type = ''mixer'',
         dependencies = [1], duration = Some 5, inputs = [], outputs = []\<rparr>"
  have a: "(1, 2) \<in> dep_rel ?p" using dep_relI [of ?o2 ?p 1] by simp
  have b: "(2, 1) \<in> dep_rel ?p" using dep_relI [of ?o1 ?p 2] by simp
  have t: "(1, 1) \<in> (dep_rel ?p)\<^sup>+"
    by (rule trancl.intros(2) [OF trancl.intros(1) [OF a] b])
  have hc: "has_cycle ?p" unfolding has_cycle_def by (rule exI [of _ 1]) (rule t)
  have v: "post_init ?p = Inr ()" by (simp add: post_init_def)
  note c = C8_cycle_rejected [OF hc, of 1000 Map.empty]
  show ?thesis
    by (intro conjI) (rule hc v c [THEN conjunct1] c [THEN conjunct2, THEN conjunct2])+
qed

section \<open>Schedules produced by the list scheduler\<close>

lemma op_map_get_Inr:
  "op_map_get p i = Inr op \<Longrightarrow> op \<in> set (operations p) \<and> op_id op = i"
  by (auto simp: op_map_get_def op_map_def split: option.splits dest!: map_of_SomeD)

lemma distinct_ids_unique:
  "distinct (map op_id ops) \<Longrightarrow> op \<in> set ops \<Longrightarrow> op' \<in> set ops \<Longrightarrow>
     op_id op = op_id op' \<Longrightarrow> op = op'"
  by (auto simp: distinct_map dest: inj_onD)

lemma new_ListScheduler_Inr:
  assumes "new_ListScheduler limit p instances = Inr s"
  shows "problem s = p" and "module_instances s = instances"
    and "distinct (map op_id (operations p))"
proof -
  from assms obtain a l where a: "compute_asap p = Inr a" and l: "compute_alap p = Inr l"
    and s: "s = \<lparr>problem = p, module_instances = instances, asap = a, alap = l,
            recursion_limit = limit\<rparr>"
    by (auto simp: new_ListScheduler_def ebind_eq_Inr)
  from s show "problem s = p" "module_instances s = instances" by simp_all
  from a obtain topo where "topological_sort p = Inr topo"
    by (auto simp: compute_asap_def ebind_eq_Inr)
  then show "distinct (map op_id (operations p))" by (rule topological_sort_distinct_ids)
qed

definition sched_keys :: "sched_state \<Rightarrow> int set" where
  "sched_keys st = fst ` set (schedule st)"

definition entry_ok :: "DMFBProblem \<Rightarrow> (int \<times> int \<times> int) list \<Rightarrow> Operation \<Rightarrow> int \<Rightarrow> int \<Rightarrow> bool"
  where
  "entry_ok p sch op b e \<longleftrightarrow>
     get_duration op (modules p) = Inr (e - b) \<and>
     (\<forall>dep \<in> set (dependencies op). \<exists>b' e'. map_of sch dep = Some (b', e') \<and> e' \<le> b)"

definition sched_inv :: "DMFBProblem \<Rightarrow> sched_state \<Rightarrow> bool" where
  "sched_inv p st \<longleftrightarrow>
     completed st \<subseteq> sched_keys st \<and>
     (\<forall>i b e. map_of (schedule st) i = Some (b, e) \<longrightarrow>
        (\<exists>op \<in> set (operations p). op_id op = i \<and> entry_ok p (schedule st) op b e))"

lemma sched_keys_dom: "sched_keys st = dom (map_of (schedule st))"
  by (simp add: sched_keys_def dom_map_of_conv_image_fst)

lemma earliest_dep_ge_init:
  fixes t :: int and sch :: "(int \<times> int \<times> int) list"
  shows "t \<le> fold (\<lambda>dep_id e. case map_of sch dep_id of Some (b, e') \<Rightarrow> max e e' | None \<Rightarrow> e)
          deps t"
proof (induction deps arbitrary: t)
  case Nil
  then show ?case by simp
next
  case (Cons d deps)
  let ?t' = "case map_of sch d of Some (b, e') \<Rightarrow> max t e' | None \<Rightarrow> t"
  have "t \<le> ?t'" by (auto split: option.splits)
  also have "?t' \<le> fold (\<lambda>dep_id e. case map_of sch dep_id of
      Some (b, e') \<Rightarrow> max e e' | None \<Rightarrow> e) deps ?t'"
    by (rule Cons.IH)
  finally show ?case by (simp only: fold_simps)
qed

lemma earliest_dep_ge_dep:
  fixes t :: int and sch :: "(int \<times> int \<times> int) list"
  shows "dep \<in> set deps \<Longrightarrow> map_of sch dep = Some (b', e') \<Longrightarrow>
     e' \<le> fold (\<lambda>dep_id e. case map_of sch dep_id of Some (b, e') \<Rightarrow> max e e' | None \<Rightarrow> e)
          deps t"
proof (induction deps arbitrary: t)
  case Nil
  then show ?case by simp
next
  case (Cons d deps)
  let ?f = "\<lambda>dep_id e. case map_of sch dep_id of Some (b, e') \<Rightarrow> max e e' | None \<Rightarrow> e"
  show ?case
  proof (cases "d = dep")
    case True
    have "e' \<le> ?f d t" using True Cons.prems(2) by simp
    also have "?f d t \<le> fold ?f deps (?f d t)" by (rule earliest_dep_ge_init)
    finally show ?thesis by (simp only: fold_simps)
  next
    case False
    with Cons.prems have "dep \<in> set deps" by simp
    from Cons.IH [OF this Cons.prems(2), of "?f d t"] show ?thesis by (simp only: fold_simps)
  qed
qed

text \<open>What one pass of the body of the \<^verbatim>\<open>for\<close> loop does to the state.\<close>

lemma schedule_op_Inr:
  assumes "schedule_op s i (st, acc) = Inr (st', acc')"
  shows "\<exists>op dur start.
     op_map_get (problem s) i = Inr op \<and>
     get_duration op (modules (problem s)) = Inr dur \<and>
     fold (\<lambda>dep_id e. case map_of (schedule st) dep_id of
                         Some (b, e') \<Rightarrow> max e e' | None \<Rightarrow> e)
       (dependencies op) (current_time st) \<le> start \<and>
     schedule st' = AList.update i (start, start + dur) (schedule st) \<and>
     completed st \<subseteq> completed st' \<and> completed st' \<subseteq> insert i (completed st) \<and>
     current_time st' = current_time st \<and> acc' = acc @ [i]"
proof -
  from assms obtain op where op: "op_map_get (problem s) i = Inr op"
    by (cases "op_map_get (problem s) i") (auto simp: schedule_op_def)
  from assms op obtain dur where dur: "get_duration op (modules (problem s)) = Inr dur"
    by (cases "get_duration op (modules (problem s))") (auto simp: schedule_op_def)
  let ?ed = "fold (\<lambda>dep_id e. case map_of (schedule st) dep_id of
                         Some (b, e') \<Rightarrow> max e e' | None \<Rightarrow> e)
       (dependencies op) (current_time st)"
  let ?choose = "case module_instances s (module_type op) of
                   None \<Rightarrow> Inr (?ed, module_available st)
                 | Some count \<Rightarrow>
                     ebind (py_min (module_available st (module_type op))) (\<lambda>earliest_avail.
                       let start = max ?ed earliest_avail;
                           idx = index_of (module_available st (module_type op)) earliest_avail
                       in Inr (start, (module_available st)
                                 (module_type op := (module_available st (module_type op))
                                    [idx := start + dur])))"
  from assms op dur obtain start avail where ch: "?choose = Inr (start, avail)"
    by (cases ?choose) (auto simp: schedule_op_def Let_def)
  have ge: "?ed \<le> start"
    using ch by (auto split: option.splits simp: ebind_eq_Inr Let_def)
  have "st' = st\<lparr>schedule := AList.update i (start, start + dur) (schedule st),
                 module_available := avail,
                 completed := (if start + dur \<le> current_time st
                               then insert i (completed st) else completed st)\<rparr>"
    and "acc' = acc @ [i]"
    using assms op dur ch by (simp_all add: schedule_op_def Let_def)
  with op dur ge show ?thesis by auto
qed


lemma schedule_op_inv:
  assumes D: "distinct (map op_id (operations p))" and ps: "problem s = p"
    and inv: "sched_inv p st" and new: "i \<notin> sched_keys st"
    and deps: "\<forall>op \<in> set (operations p). op_id op = i \<longrightarrow>
                 set (dependencies op) \<subseteq> sched_keys st"
    and r: "schedule_op s i (st, acc) = Inr (st', acc')"
  shows "sched_inv p st'" and "sched_keys st' = insert i (sched_keys st)"
proof -
  let ?ed = "\<lambda>op. fold (\<lambda>dep_id e. case map_of (schedule st) dep_id of
                         Some (b, e') \<Rightarrow> max e e' | None \<Rightarrow> e)
       (dependencies op) (current_time st)"
  from schedule_op_Inr [OF r] ps obtain op dur start where
    op: "op_map_get p i = Inr op" and dur: "get_duration op (modules p) = Inr dur"
    and ge: "?ed op \<le> start"
    and sch: "schedule st' = AList.update i (start, start + dur) (schedule st)"
    and c: "completed st' \<subseteq> insert i (completed st)"
    by auto
  have m: "map_of (schedule st') = (map_of (schedule st))(i \<mapsto> (start, start + dur))"
    by (simp add: sch update_conv')
  show k: "sched_keys st' = insert i (sched_keys st)"
    by (simp add: sched_keys_dom m)
  from op_map_get_Inr [OF op] have opin: "op \<in> set (operations p)" and opid: "op_id op = i"
    by simp_all
  have none: "map_of (schedule st) i = None"
    using new by (auto simp: sched_keys_dom)
  have keep: "map_of (schedule st') d = map_of (schedule st) d"
    if "map_of (schedule st) d = Some v" for d v
    using that none by (auto simp: m)
  have comp: "completed st' \<subseteq> sched_keys st'"
    using c inv k by (auto simp: sched_inv_def)
  have ent: "\<exists>op \<in> set (operations p). op_id op = j \<and> entry_ok p (schedule st') op b e"
    if j: "map_of (schedule st') j = Some (b, e)" for j b e
  proof (cases "j = i")
    case True
    with j have be: "b = start" "e = start + dur" by (simp_all add: m)
    have "\<exists>b' e'. map_of (schedule st') dep = Some (b', e') \<and> e' \<le> b"
      if dep: "dep \<in> set (dependencies op)" for dep
    proof -
      from deps opin opid dep have "dep \<in> sched_keys st" by auto
      then obtain b' e' where o: "map_of (schedule st) dep = Some (b', e')"
        by (auto simp: sched_keys_dom)
      from earliest_dep_ge_dep [OF dep o, of "current_time st"] ge have "e' \<le> b"
        by (simp add: be)
      with keep [OF o] o show ?thesis by simp
    qed
    then have "entry_ok p (schedule st') op b e"
      using dur by (simp add: entry_ok_def be)
    with opin opid True show ?thesis by auto
  next
    case False
    with j have old: "map_of (schedule st) j = Some (b, e)" by (simp add: m)
    with inv obtain op' where op': "op' \<in> set (operations p)" "op_id op' = j"
      "entry_ok p (schedule st) op' b e"
      unfolding sched_inv_def by blast
    have "entry_ok p (schedule st') op' b e"
      using op'(3) keep unfolding entry_ok_def by fastforce
    with op' show ?thesis by auto
  qed
  from comp ent show "sched_inv p st'" unfolding sched_inv_def by blast
qed

lemma schedule_ready_inv:
  assumes D: "distinct (map op_id (operations p))" and ps: "problem s = p"
  shows "sched_inv p st \<Longrightarrow> distinct ready \<Longrightarrow>
     \<forall>i \<in> set ready. i \<notin> sched_keys st \<and>
        (\<forall>op \<in> set (operations p). op_id op = i \<longrightarrow> set (dependencies op) \<subseteq> sched_keys st) \<Longrightarrow>
     schedule_ready s ready (st, acc) = Inr (st', acc') \<Longrightarrow> sched_inv p st'"
proof (induction ready arbitrary: st acc)
  case Nil
  then show ?case by simp
next
  case (Cons i ready)
  from Cons.prems(4) obtain st1 acc1 where
    one: "schedule_op s i (st, acc) = Inr (st1, acc1)"
    and rest: "schedule_ready s ready (st1, acc1) = Inr (st', acc')"
    by (cases "schedule_op s i (st, acc)") auto
  from Cons.prems(3) have new: "i \<notin> sched_keys st"
    and deps: "\<forall>op \<in> set (operations p). op_id op = i \<longrightarrow>
                 set (dependencies op) \<subseteq> sched_keys st"
    by simp_all
  note step = schedule_op_inv [OF D ps Cons.prems(1) new deps one]
  have "\<forall>j \<in> set ready. j \<notin> sched_keys st1 \<and>
        (\<forall>op \<in> set (operations p). op_id op = j \<longrightarrow> set (dependencies op) \<subseteq> sched_keys st1)"
    using Cons.prems(2,3) unfolding step(2) by auto
  with Cons.IH [OF step(1) _ _ rest] Cons.prems(2) show ?case by simp
qed

lemma advance_completed_subset:
  "fold (\<lambda>(i, b, e) c. if e \<le> t \<and> i \<notin> c then insert i c else c) sch c0
     \<subseteq> c0 \<union> fst ` set sch"
  for t :: int and sch :: "(int \<times> int \<times> int) list"
proof (induction sch arbitrary: c0)
  case Nil
  then show ?case by simp
next
  case (Cons x sch)
  obtain i b e where x: "x = (i, b, e)" by (cases x)
  show ?case using Cons.IH [of "if e \<le> t \<and> i \<notin> c0 then insert i c0 else c0"]
    by (auto simp: x split: if_splits)
qed

lemma advance_time_inv:
  assumes "sched_inv p st" "advance_time st = Inr st'"
  shows "sched_inv p st'"
proof -
  from assms(2) obtain t where
    st': "st' = st\<lparr>current_time := t,
               completed := fold (\<lambda>(i, b, e) c. if e \<le> t \<and> i \<notin> c then insert i c else c)
                              (schedule st) (completed st)\<rparr>"
    by (auto simp: advance_time_def ebind_eq_Inr)
  have "completed st' \<subseteq> completed st \<union> fst ` set (schedule st)"
    unfolding st' using advance_completed_subset [of t "schedule st" "completed st"] by simp
  then show ?thesis using assms(1) by (auto simp: sched_inv_def sched_keys_def st')
qed

lemma ready_ops_ok:
  assumes D: "distinct (map op_id (operations p))" and ps: "problem s = p"
    and inv: "sched_inv p st"
  shows "distinct (ready_ops s st)"
    and "\<forall>i \<in> set (ready_ops s st). i \<notin> sched_keys st \<and>
        (\<forall>op \<in> set (operations p). op_id op = i \<longrightarrow> set (dependencies op) \<subseteq> sched_keys st)"
proof -
  show "distinct (ready_ops s st)"
    using D unfolding ready_ops_def ps by (rule distinct_map_filter)
  have c: "completed st \<subseteq> sched_keys st" using inv by (simp add: sched_inv_def)
  show "\<forall>i \<in> set (ready_ops s st). i \<notin> sched_keys st \<and>
        (\<forall>op \<in> set (operations p). op_id op = i \<longrightarrow> set (dependencies op) \<subseteq> sched_keys st)"
  proof (intro ballI conjI impI)
    fix i assume "i \<in> set (ready_ops s st)"
    then obtain op where op: "op \<in> set (operations p)" "op_id op = i"
      "op_id op \<notin> fst ` set (schedule st)" "\<forall>dep \<in> set (dependencies op). dep \<in> completed st"
      unfolding ready_ops_def ps by auto
    from op(2,3) show "i \<notin> sched_keys st" by (simp add: sched_keys_def)
    fix op' assume "op' \<in> set (operations p)" "op_id op' = i"
    with distinct_ids_unique [OF D op(1) this(1)] op(2) have "op' = op" by simp
    with op(4) c show "set (dependencies op') \<subseteq> sched_keys st" by auto
  qed
qed

lemma solve_step_inv:
  assumes D: "distinct (map op_id (operations p))" and ps: "problem s = p"
    and inv: "sched_inv p st" and r: "solve_step s priorities st = Inr st'"
  shows "sched_inv p st'"
proof (cases "ready_ops s st = []")
  case True
  with r have "advance_time st = Inr st' \<or> st' = st"
    by (auto simp: solve_step_def Let_def split: if_splits)
  with inv advance_time_inv show ?thesis by blast
next
  case False
  let ?ready = "sort_key (\<lambda>i. - priorities i) (ready_ops s st)"
  from r False obtain st1 acc1 where
    run: "schedule_ready s ?ready (st, []) = Inr (st1, acc1)"
    and fin: "(if acc1 = []
             then (if schedule st1 \<noteq> [] then advance_time st1
                   else Inr (st1\<lparr>current_time := current_time st1 + 1\<rparr>))
             else Inr st1) = Inr st'"
    by (cases "schedule_ready s ?ready (st, [])") (auto simp: solve_step_def Let_def)
  note ok = ready_ops_ok [OF D ps inv]
  have "sched_inv p st1"
    using schedule_ready_inv [OF D ps inv _ _ run] ok by simp
  moreover have "sched_inv p (st1\<lparr>current_time := t\<rparr>)" if "sched_inv p st1" for t
    using that by (simp add: sched_inv_def sched_keys_def)
  ultimately show ?thesis
    using fin advance_time_inv by (auto split: if_splits)
qed

definition loop_post :: "ListScheduler \<Rightarrow> sched_state \<Rightarrow> error + sched_state \<Rightarrow> bool" where
  "loop_post s st y \<longleftrightarrow>
     (\<forall>st'. y = Inr st' \<longrightarrow> distinct (map op_id (operations (problem s))) \<longrightarrow>
        sched_inv (problem s) st \<longrightarrow>
        sched_inv (problem s) st' \<and> length (operations (problem s)) \<le> card (completed st'))"

lemma solve_loop_inv_aux:
  assumes "solve_loop s priorities st = Some y"
  shows "loop_post s st y"
proof (rule solve_loop.raw_induct [where P = "\<lambda>s priorities st y. loop_post s st y",
      OF _ assms], goal_cases)
  case (1 loop s priorities st y)
  show ?case unfolding loop_post_def
  proof (intro allI impI)
    fix st'
    assume y: "y = Inr st'" and D: "distinct (map op_id (operations (problem s)))"
      and inv: "sched_inv (problem s) st"
    show "sched_inv (problem s) st' \<and> length (operations (problem s)) \<le> card (completed st')"
    proof (cases "card (completed st) < length (operations (problem s))")
      case False
      with "1"(2) y inv show ?thesis by simp
    next
      case True
      show ?thesis
      proof (cases "solve_step s priorities st")
        case (Inl e)
        with "1"(2) True y show ?thesis by simp
      next
        case (Inr st1)
        with "1"(2) True have l: "loop s priorities st1 = Some y" by simp
        have inv1: "sched_inv (problem s) st1"
          by (rule solve_step_inv [OF D refl inv Inr])
        have "loop_post s st1 y" using l by (rule "1"(1))
        with y D inv1 show ?thesis by (simp add: loop_post_def)
      qed
    qed
  qed
qed

lemma solve_loop_inv:
  assumes "distinct (map op_id (operations p))" "problem s = p"
    "solve_loop s priorities st = Some (Inr st')" "sched_inv p st"
  shows "sched_inv p st'" and "length (operations p) \<le> card (completed st')"
  using solve_loop_inv_aux [OF assms(3)] assms(1,2,4) by (simp_all add: loop_post_def)

lemma sched_inv_init:
  "sched_inv p \<lparr>schedule = [], completed = {}, module_available = a, current_time = 0\<rparr>"
  by (simp add: sched_inv_def sched_keys_def)

text \<open>When the loop has ended, every operation has its entry.\<close>

lemma sched_inv_complete:
  assumes D: "distinct (map op_id (operations p))" and inv: "sched_inv p st"
    and full: "length (operations p) \<le> card (completed st)"
    and op: "op \<in> set (operations p)"
  shows "\<exists>b e. map_of (schedule st) (op_id op) = Some (b, e) \<and> entry_ok p (schedule st) op b e"
proof -
  let ?ids = "op_id ` set (operations p)"
  have sub: "completed st \<subseteq> ?ids"
  proof
    fix i assume "i \<in> completed st"
    with inv have "i \<in> dom (map_of (schedule st))"
      by (auto simp: sched_inv_def sched_keys_dom)
    then obtain b e where "map_of (schedule st) i = Some (b, e)" by auto
    with inv show "i \<in> ?ids" unfolding sched_inv_def by blast
  qed
  have "card ?ids = length (operations p)"
    using D distinct_card [of "map op_id (operations p)"] by simp
  with full have "card ?ids \<le> card (completed st)" by simp
  with sub have ceq: "completed st = ?ids" by (simp add: card_seteq)
  have "op_id op \<in> ?ids" using op by (rule imageI)
  then have "op_id op \<in> completed st" by (simp only: ceq)
  moreover have "completed st \<subseteq> sched_keys st" using inv by (simp add: sched_inv_def)
  ultimately have "op_id op \<in> dom (map_of (schedule st))"
    unfolding sched_keys_dom by (rule rev_subsetD)
  then obtain b e where be: "map_of (schedule st) (op_id op) = Some (b, e)" by auto
  with inv obtain op' where op': "op' \<in> set (operations p)" "op_id op' = op_id op"
    "entry_ok p (schedule st) op' b e"
    unfolding sched_inv_def by blast
  have "op' = op" by (rule distinct_ids_unique [OF D op'(1) op op'(2)])
  with op'(3) have "entry_ok p (schedule st) op b e" by simp
  with be show ?thesis by blast
qed

lemma solve_Inr:
  assumes "solve s strategy = Some (Inr r)"
  shows "\<exists>priorities st.
     solve_loop s priorities
       \<lparr>schedule = [], completed = {}, module_available = init_module_available s,
        current_time = 0\<rparr> = Some (Inr st) \<and> r_schedule r = schedule st"
proof -
  from assms obtain priorities where
    "calculate_priorities s strategy (operations (problem s)) (\<lambda>_. 0) = Inr priorities"
    by (cases "calculate_priorities s strategy (operations (problem s)) (\<lambda>_. 0)")
      (auto simp: solve_def)
  with assms obtain st where
    l: "solve_loop s priorities
       \<lparr>schedule = [], completed = {}, module_available = init_module_available s,
        current_time = 0\<rparr> = Some (Inr st)" and f: "finish_solve s strategy st = Inr r"
    by (auto simp: solve_def split: option.splits sum.splits)
  from f have "r_schedule r = schedule st"
    by (auto simp: finish_solve_def ebind_eq_Inr)
  with l show ?thesis by blast
qed

section \<open>The topological order puts dependencies first\<close>

text \<open>Every dependency of an id in the list stands before the id.\<close>

definition deps_first :: "DMFBProblem \<Rightarrow> int list \<Rightarrow> bool" where
  "deps_first p topo \<longleftrightarrow>
     (\<forall>xs k ys. topo = xs @ k # ys \<longrightarrow>
        (\<forall>op \<in> set (operations p). op_id op = k \<longrightarrow> set (dependencies op) \<subseteq> set xs))"

definition deps_in :: "DMFBProblem \<Rightarrow> int list \<Rightarrow> int \<Rightarrow> bool" where
  "deps_in p res k \<longleftrightarrow>
     (\<forall>op \<in> set (operations p). op_id op = k \<longrightarrow> set (dependencies op) \<subseteq> set res)"

lemma deps_first_snoc:
  "deps_first p res \<Longrightarrow> deps_in p res i \<Longrightarrow> deps_first p (res @ [i])"
  unfolding deps_first_def deps_in_def
proof (intro allI impI)
  fix xs k ys
  assume a: "\<forall>xs k ys. res = xs @ k # ys \<longrightarrow>
        (\<forall>op \<in> set (operations p). op_id op = k \<longrightarrow> set (dependencies op) \<subseteq> set xs)"
    and b: "\<forall>op \<in> set (operations p). op_id op = i \<longrightarrow> set (dependencies op) \<subseteq> set res"
    and c: "res @ [i] = xs @ k # ys"
  show "\<forall>op \<in> set (operations p). op_id op = k \<longrightarrow> set (dependencies op) \<subseteq> set xs"
  proof (cases ys rule: rev_cases)
    case Nil
    with c have "xs = res" "k = i" by simp_all
    with b show ?thesis by simp
  next
    case (snoc ys' y)
    with c have "res = xs @ k # ys'" by simp
    with a show ?thesis by blast
  qed
qed

lemma kahn_fold_deps_in:
  assumes "distinct (map op_id (operations p))" "i \<notin> set res"
  shows "operations p = ys @ xs \<Longrightarrow>
     \<forall>op \<in> set ys. pending_le deg (res @ [i]) op \<Longrightarrow>
     \<forall>op \<in> set xs. pending_le deg res op \<Longrightarrow>
     \<forall>k \<in> set q. deps_in p (res @ [i]) k \<Longrightarrow>
     fold (kahn_visit i) xs (deg, q) = (deg', q') \<Longrightarrow>
     (\<forall>op \<in> set (operations p). pending_le deg' (res @ [i]) op) \<and>
     (\<forall>k \<in> set q'. deps_in p (res @ [i]) k)"
proof (induction xs arbitrary: ys deg q)
  case Nil
  then show ?case by simp
next
  case (Cons x xs)
  let ?j = "op_id x"
  obtain d1 q1 where s: "kahn_visit i x (deg, q) = (d1, q1)" by (cases "kahn_visit i x (deg, q)")
  have f: "fold (kahn_visit i) xs (d1, q1) = (deg', q')" using Cons.prems(5) by (simp add: s)
  have ops: "operations p = (ys @ [x]) @ xs" using Cons.prems(1) by simp
  have xin: "x \<in> set (operations p)" using Cons.prems(1) by simp
  have other: "op_id op \<noteq> ?j" if "op \<in> set ys \<or> op \<in> set xs" for op
    using assms(1) that unfolding Cons.prems(1) by (auto simp: image_iff)
  have x_old: "pending_le deg res x" using Cons.prems(3) by simp
  show ?case
  proof (cases "i \<in> set (dependencies x)")
    case False
    then have eq: "d1 = deg" "q1 = q" using s by (auto simp: kahn_visit_def)
    have "set (dependencies x) - set (res @ [i]) = set (dependencies x) - set res"
      using False by auto
    then have "pending_le deg (res @ [i]) x" using x_old by (simp add: pending_le_def)
    then show ?thesis
      using Cons.IH [OF ops _ _ _ f] Cons.prems(2,3,4) unfolding eq by simp
  next
    case True
    have d1: "d1 = deg(?j := deg ?j - 1)"
      using s True by (auto simp: kahn_visit_def Let_def split: if_splits)
    define A where "A = set (dependencies x) - set (res @ [i])"
    have eq: "set (dependencies x) - set res = insert i A"
      unfolding A_def using True assms(2) by auto
    have "finite A" "i \<notin> A" unfolding A_def by simp_all
    then have "card (insert i A) = Suc (card A)" by (rule card_insert_disjoint)
    then have c: "card (set (dependencies x) - set res) = Suc (card A)"
      by (simp only: eq)
    have "int (card A) \<le> deg ?j - 1"
      using x_old unfolding pending_le_def c by simp
    then have x_new: "pending_le d1 (res @ [i]) x"
      unfolding pending_le_def A_def d1 by simp
    have ys_new: "\<forall>op \<in> set ys. pending_le d1 (res @ [i]) op"
      using Cons.prems(2) other by (auto simp: pending_le_def d1)
    have xs_new: "\<forall>op \<in> set xs. pending_le d1 res op"
      using Cons.prems(3) other by (auto simp: pending_le_def d1)
    have q1_ok: "\<forall>k \<in> set q1. deps_in p (res @ [i]) k"
    proof (cases "deg ?j - 1 = 0")
      case False
      then have "q1 = q" using s True by (auto simp: kahn_visit_def Let_def)
      with Cons.prems(4) show ?thesis by simp
    next
      case z: True
      then have q1: "q1 = q @ [?j]" using s True by (auto simp: kahn_visit_def Let_def)
      have "d1 ?j = 0" using z by (simp add: d1)
      with x_new have "card (set (dependencies x) - set (res @ [i])) = 0"
        by (simp add: pending_le_def)
      then have sub: "set (dependencies x) \<subseteq> set (res @ [i])" by auto
      have "deps_in p (res @ [i]) ?j"
        unfolding deps_in_def
      proof (intro ballI impI)
        fix op assume op: "op \<in> set (operations p)" "op_id op = ?j"
        have "op = x" by (rule distinct_ids_unique [OF assms(1) op(1) xin op(2)])
        with sub show "set (dependencies op) \<subseteq> set (res @ [i])" by simp
      qed
      with Cons.prems(4) show ?thesis by (auto simp: q1)
    qed
    from Cons.IH [OF ops _ xs_new q1_ok f] ys_new x_new show ?thesis by simp
  qed
qed

lemma deps_in_mono: "deps_in p res k \<Longrightarrow> set res \<subseteq> set res' \<Longrightarrow> deps_in p res' k"
  unfolding deps_in_def by blast

lemma kahn_loop_deps_first:
  assumes "distinct (map op_id (operations p))"
  shows "kahn_inv ops deg queue result \<Longrightarrow> ops = operations p \<Longrightarrow>
     \<forall>op \<in> set ops. pending_le deg result op \<Longrightarrow>
     deps_first p result \<Longrightarrow> \<forall>k \<in> set queue. deps_in p result k \<Longrightarrow>
     deps_first p (kahn_loop ops deg queue result)"
proof (induction ops deg queue result rule: kahn_loop.induct)
  case (1 ops deg result)
  then show ?case by simp
next
  case (2 ops deg i queue result)
  obtain deg' queue' where f: "fold (kahn_visit i) ops (deg, queue) = (deg', queue')"
    by (cases "fold (kahn_visit i) ops (deg, queue)")
  have inv: "kahn_inv ops deg queue (result @ [i])"
    using "2.prems"(1) unfolding kahn_inv_def by auto
  then have inv': "kahn_inv ops deg' queue' (result @ [i])"
    using kahn_fold_inv [OF subset_refl _ f] by simp
  have i: "i \<notin> set result" using "2.prems"(1) unfolding kahn_inv_def by auto
  have df: "deps_first p (result @ [i])"
    using "2.prems"(4,5) by (auto intro: deps_first_snoc)
  have qd: "\<forall>k \<in> set queue. deps_in p (result @ [i]) k"
    using "2.prems"(5) by (auto intro: deps_in_mono)
  have "(\<forall>op \<in> set (operations p). pending_le deg' (result @ [i]) op) \<and>
     (\<forall>k \<in> set queue'. deps_in p (result @ [i]) k)"
    using kahn_fold_deps_in [OF assms i, of "[]" ops deg queue deg' queue']
      "2.prems"(2,3) qd f by simp
  then have "deps_first p (kahn_loop ops deg' queue' (result @ [i]))"
    using "2.IH" [OF f [symmetric] inv' "2.prems"(2) _ df] "2.prems"(2) by simp
  moreover have "kahn_loop ops deg (i # queue) result =
      kahn_loop ops deg' queue' (result @ [i])"
    by (simp add: f)
  ultimately show ?case by simp
qed

lemma topological_sort_deps_first:
  assumes "topological_sort p = Inr topo"
  shows "deps_first p topo"
proof -
  let ?ops = "operations p"
  let ?q = "filter (\<lambda>k. init_in_degree ?ops k = 0) (dict_keys (map op_id ?ops))"
  note D = topological_sort_distinct_ids(1) [OF assms]
  from assms have topo: "topo = kahn_loop ?ops (init_in_degree ?ops) ?q []"
    by (auto simp: topological_sort_def Let_def split: if_splits)
  have pend: "\<forall>op \<in> set ?ops. pending_le (init_in_degree ?ops) [] op"
  proof
    fix op assume op: "op \<in> set ?ops"
    have "int (card (set (dependencies op))) \<le> int (length (dependencies op))"
      by (simp add: card_length)
    with init_in_degree_ge [OF op] show "pending_le (init_in_degree ?ops) [] op"
      by (simp add: pending_le_def)
  qed
  have q: "\<forall>k \<in> set ?q. deps_in p [] k"
    unfolding deps_in_def
  proof (intro ballI impI)
    fix k op assume k: "k \<in> set ?q" and op: "op \<in> set ?ops" "op_id op = k"
    from k have "init_in_degree ?ops k = 0" by simp
    with init_in_degree_ge [OF op(1)] op(2) have "dependencies op = []" by simp
    then show "set (dependencies op) \<subseteq> set []" by simp
  qed
  have "deps_first p []" by (simp add: deps_first_def)
  from kahn_loop_deps_first [OF D kahn_inv_init refl pend this q]
  show ?thesis by (simp add: topo)
qed

section \<open>The scheduling loop ends\<close>

lemma sched_keys_ids:
  "sched_inv p st \<Longrightarrow> sched_keys st \<subseteq> op_id ` set (operations p)"
proof
  fix i assume inv: "sched_inv p st" and "i \<in> sched_keys st"
  then obtain b e where "map_of (schedule st) i = Some (b, e)"
    by (auto simp: sched_keys_dom)
  with inv show "i \<in> op_id ` set (operations p)" unfolding sched_inv_def by blast
qed

lemma finite_sched_keys [simp]: "finite (sched_keys st)"
  by (simp add: sched_keys_def)

text \<open>
  While an operation is not completed, either an operation is ready or a scheduled
  operation is still running: an unscheduled operation that comes first in the
  topological order has all its dependencies scheduled.
\<close>

lemma ready_or_running:
  assumes D: "distinct (map op_id (operations p))" and ps: "problem s = p"
    and topo: "deps_first p topo" "set topo = op_id ` set (operations p)"
    and inv: "sched_inv p st"
    and less: "card (completed st) < length (operations p)"
    and none: "ready_ops s st = []"
  shows "\<exists>i \<in> sched_keys st. i \<notin> completed st"
proof (rule ccontr)
  assume "\<not> ?thesis"
  then have kc: "sched_keys st \<subseteq> completed st" by blast
  from inv have ck: "completed st \<subseteq> sched_keys st" by (simp add: sched_inv_def)
  have "card (op_id ` set (operations p)) = length (operations p)"
    using D distinct_card [of "map op_id (operations p)"] by simp
  with less have "completed st \<noteq> op_id ` set (operations p)" by auto
  with ck sched_keys_ids [OF inv] kc have "\<exists>k \<in> set topo. k \<notin> sched_keys st"
    unfolding topo(2) by blast
  from split_list_first_prop [OF this] obtain xs k ys where
    t: "topo = xs @ k # ys" and k: "k \<notin> sched_keys st" and xs: "\<forall>x \<in> set xs. x \<in> sched_keys st"
    by auto
  have "k \<in> op_id ` set (operations p)" using topo(2) t by auto
  then obtain op where op: "op \<in> set (operations p)" "op_id op = k" by auto
  from topo(1) t op have "set (dependencies op) \<subseteq> set xs"
    unfolding deps_first_def by blast
  with xs kc have deps: "\<forall>dep \<in> set (dependencies op). dep \<in> completed st" by blast
  from k ck op(2) have "op_id op \<notin> completed st" "op_id op \<notin> fst ` set (schedule st)"
    by (auto simp: sched_keys_def)
  with op(1) deps have "op_id op \<in> set (ready_ops s st)"
    unfolding ready_ops_def ps by auto
  with none show False by simp
qed

lemma py_min_member: "xs \<noteq> [] \<Longrightarrow> \<exists>t. py_min xs = Inr t \<and> t \<in> set xs"
proof (cases xs)
  case Nil
  then show "xs \<noteq> [] \<Longrightarrow> ?thesis" by simp
next
  case (Cons x ys)
  have "fold min zs z \<in> set (z # zs)" for zs and z :: int
    by (induction zs arbitrary: z) (auto simp: min_def)
  from this [of ys x] Cons show "xs \<noteq> [] \<Longrightarrow> ?thesis" by simp
qed

lemma py_max_nonempty: "xs \<noteq> [] \<Longrightarrow> \<exists>t. py_max xs = Inr t"
  by (cases xs) simp_all

lemma advance_completed_mono:
  "c0 \<subseteq> fold (\<lambda>(i, b, e) c. if e \<le> t \<and> i \<notin> c then insert i c else c) sch c0"
  for t :: int and sch :: "(int \<times> int \<times> int) list"
proof (induction sch arbitrary: c0)
  case Nil
  then show ?case by simp
next
  case (Cons x sch)
  obtain i b e where x: "x = (i, b, e)" by (cases x)
  show ?case using Cons.IH [of "if e \<le> t \<and> i \<notin> c0 then insert i c0 else c0"]
    by (auto simp: x split: if_splits)
qed

lemma advance_completed_marks:
  "(i, b, e) \<in> set sch \<Longrightarrow> e \<le> t \<Longrightarrow>
     i \<in> fold (\<lambda>(i, b, e) c. if e \<le> t \<and> i \<notin> c then insert i c else c) sch c0"
  for t :: int and sch :: "(int \<times> int \<times> int) list"
proof (induction sch arbitrary: c0)
  case Nil
  then show ?case by simp
next
  case (Cons x sch)
  obtain i' b' e' where x: "x = (i', b', e')" by (cases x)
  let ?c1 = "if e' \<le> t \<and> i' \<notin> c0 then insert i' c0 else c0"
  show ?case
  proof (cases "x = (i, b, e)")
    case True
    with Cons.prems(2) x have "i \<in> ?c1" by auto
    with advance_completed_mono [of ?c1 t sch] show ?thesis by (auto simp: x)
  next
    case False
    with Cons.prems have "(i, b, e) \<in> set sch" by simp
    from Cons.IH [OF this Cons.prems(2), of ?c1] show ?thesis by (simp add: x)
  qed
qed

text \<open>With a scheduled operation still running, the clock advance completes one.\<close>

lemma advance_time_progress:
  assumes run: "\<exists>i \<in> sched_keys st. i \<notin> completed st"
  shows "\<exists>st'. advance_time st = Inr st' \<and> schedule st' = schedule st \<and>
     module_available st' = module_available st \<and>
     completed st \<subset> completed st'"
proof -
  let ?pending = "filter (\<lambda>(i, b, e). i \<notin> completed st) (schedule st)"
  let ?ends = "map (\<lambda>(i, b, e). e) ?pending"
  from run have "?pending \<noteq> []"
    by (auto simp: sched_keys_def filter_empty_conv)
  then have "?ends \<noteq> []" by simp
  from py_min_member [OF this] obtain t where t: "py_min ?ends = Inr t" "t \<in> set ?ends"
    by blast
  from t(2) obtain i b where ib: "(i, b, t) \<in> set (schedule st)" "i \<notin> completed st"
    by auto
  let ?c = "fold (\<lambda>(i, b, e) c. if e \<le> t \<and> i \<notin> c then insert i c else c)
                              (schedule st) (completed st)"
  let ?st' = "st\<lparr>current_time := t, completed := ?c\<rparr>"
  have "advance_time st = Inr ?st'" by (simp add: advance_time_def t(1))
  moreover have "i \<in> ?c" by (rule advance_completed_marks [OF ib(1)]) simp
  with ib(2) advance_completed_mono [of "completed st" t "schedule st"]
  have "completed st \<subset> completed ?st'" by auto
  ultimately show ?thesis by auto
qed

lemma schedule_op_avail:
  assumes "schedule_op s i (st, acc) = Inr (st', acc')"
  shows "length (module_available st' m) = length (module_available st m)"
proof -
  from assms obtain op where op: "op_map_get (problem s) i = Inr op"
    by (cases "op_map_get (problem s) i") (auto simp: schedule_op_def)
  from assms op obtain dur where dur: "get_duration op (modules (problem s)) = Inr dur"
    by (cases "get_duration op (modules (problem s))") (auto simp: schedule_op_def)
  show ?thesis
  proof (cases "module_instances s (module_type op)")
    case None
    with assms op dur show ?thesis by (auto simp: schedule_op_def Let_def)
  next
    case (Some c)
    with assms op dur obtain t where "py_min (module_available st (module_type op)) = Inr t"
      by (cases "py_min (module_available st (module_type op))")
        (auto simp: schedule_op_def Let_def)
    with assms op dur Some show ?thesis by (auto simp: schedule_op_def Let_def)
  qed
qed

lemma schedule_op_succeeds:
  assumes "op_map_get (problem s) i = Inr op"
    and "get_duration op (modules (problem s)) = Inr dur"
    and "module_instances s (module_type op) \<noteq> None \<longrightarrow>
         module_available st (module_type op) \<noteq> []"
  shows "\<exists>st' acc'. schedule_op s i (st, acc) = Inr (st', acc')"
proof (cases "module_instances s (module_type op)")
  case None
  with assms(1,2) show ?thesis by (simp add: schedule_op_def Let_def)
next
  case (Some c)
  with assms(3) have "module_available st (module_type op) \<noteq> []" by simp
  from py_min_member [OF this] obtain t where
    "py_min (module_available st (module_type op)) = Inr t" by blast
  with assms(1,2) Some show ?thesis by (simp add: schedule_op_def Let_def)
qed

lemma schedule_ready_outcome:
  assumes D: "distinct (map op_id (operations p))" and ps: "problem s = p"
  shows "sched_inv p st \<Longrightarrow> distinct ready \<Longrightarrow>
     \<forall>i \<in> set ready. i \<notin> sched_keys st \<and>
        (\<forall>op \<in> set (operations p). op_id op = i \<longrightarrow> set (dependencies op) \<subseteq> sched_keys st) \<Longrightarrow>
     schedule_ready s ready (st, acc) = Inr (st', acc') \<Longrightarrow>
     sched_keys st' = sched_keys st \<union> set ready \<and> completed st \<subseteq> completed st' \<and>
     acc' = acc @ ready \<and>
     (\<forall>m. length (module_available st' m) = length (module_available st m))"
proof (induction ready arbitrary: st acc)
  case Nil
  then show ?case by simp
next
  case (Cons i ready)
  from Cons.prems(4) obtain st1 acc1 where
    one: "schedule_op s i (st, acc) = Inr (st1, acc1)"
    and rest: "schedule_ready s ready (st1, acc1) = Inr (st', acc')"
    by (cases "schedule_op s i (st, acc)") auto
  from Cons.prems(3) have new: "i \<notin> sched_keys st"
    and deps: "\<forall>op \<in> set (operations p). op_id op = i \<longrightarrow>
                 set (dependencies op) \<subseteq> sched_keys st"
    by simp_all
  note step = schedule_op_inv [OF D ps Cons.prems(1) new deps one]
  from schedule_op_Inr [OF one] have c1: "completed st \<subseteq> completed st1" and a1: "acc1 = acc @ [i]"
    by auto
  have "\<forall>j \<in> set ready. j \<notin> sched_keys st1 \<and>
        (\<forall>op \<in> set (operations p). op_id op = j \<longrightarrow> set (dependencies op) \<subseteq> sched_keys st1)"
    using Cons.prems(2,3) unfolding step(2) by auto
  from Cons.IH [OF step(1) _ this rest] Cons.prems(2)
  have ih: "sched_keys st' = sched_keys st1 \<union> set ready" "completed st1 \<subseteq> completed st'"
    "acc' = acc1 @ ready"
    "\<forall>m. length (module_available st' m) = length (module_available st1 m)"
    by simp_all
  from ih step(2) c1 a1 schedule_op_avail [OF one] show ?case by auto
qed

text \<open>The number of turns the loop can still take.\<close>

definition turns_left :: "DMFBProblem \<Rightarrow> sched_state \<Rightarrow> nat" where
  "turns_left p st =
     (length (operations p) - card (sched_keys st)) +
     (length (operations p) - card (completed st))"

lemma solve_step_progress:
  assumes D: "distinct (map op_id (operations p))" and ps: "problem s = p"
    and topo: "deps_first p topo" "set topo = op_id ` set (operations p)"
    and inv: "sched_inv p st"
    and less: "card (completed st) < length (operations p)"
    and r: "solve_step s priorities st = Inr st'"
  shows "turns_left p st' < turns_left p st"
    and "\<forall>m. length (module_available st' m) = length (module_available st m)"
proof -
  have n: "card (op_id ` set (operations p)) = length (operations p)"
    using D distinct_card [of "map op_id (operations p)"] by simp
  have fin: "finite (op_id ` set (operations p))" by simp
  note inv' = solve_step_inv [OF D ps inv r]
  have k': "card (sched_keys st') \<le> length (operations p)"
    using card_mono [OF fin sched_keys_ids [OF inv']] n by simp
  have ck': "completed st' \<subseteq> sched_keys st'" using inv' by (simp add: sched_inv_def)
  have c': "card (completed st') \<le> length (operations p)"
    using card_mono [OF finite_sched_keys ck'] k' by simp
  have goal: "turns_left p st' < turns_left p st \<and>
    (\<forall>m. length (module_available st' m) = length (module_available st m))"
  proof (cases "ready_ops s st = []")
    case True
    note run = ready_or_running [OF D ps topo inv less True]
    then have "schedule st \<noteq> []" by (auto simp: sched_keys_def)
    with r True have adv: "advance_time st = Inr st'" by (simp add: solve_step_def Let_def)
    from advance_time_progress [OF run] adv have same: "schedule st' = schedule st"
      "module_available st' = module_available st"
      and more: "completed st \<subset> completed st'" by auto
    have "finite (completed st')" using ck' by (rule finite_subset) simp
    from psubset_card_mono [OF this more] have "card (completed st) < card (completed st')" .
    with c' same show ?thesis by (simp add: turns_left_def sched_keys_def)
  next
    case False
    let ?ready = "sort_key (\<lambda>i. - priorities i) (ready_ops s st)"
    from r False obtain st1 acc1 where
      run: "schedule_ready s ?ready (st, []) = Inr (st1, acc1)"
      and fin1: "(if acc1 = []
             then (if schedule st1 \<noteq> [] then advance_time st1
                   else Inr (st1\<lparr>current_time := current_time st1 + 1\<rparr>))
             else Inr st1) = Inr st'"
      by (cases "schedule_ready s ?ready (st, [])") (auto simp: solve_step_def Let_def)
    note ok = ready_ops_ok [OF D ps inv]
    have "sched_keys st1 = sched_keys st \<union> set ?ready \<and> completed st \<subseteq> completed st1 \<and>
     acc1 = [] @ ?ready \<and>
     (\<forall>m. length (module_available st1 m) = length (module_available st m))"
      by (rule schedule_ready_outcome [OF D ps inv _ _ run]) (use ok in simp_all)
    then have k1: "sched_keys st1 = sched_keys st \<union> set (ready_ops s st)"
      and c1: "completed st \<subseteq> completed st1" and a1: "acc1 = ?ready"
      and m1: "\<forall>m. length (module_available st1 m) = length (module_available st m)"
      by simp_all
    from a1 False have "acc1 \<noteq> []" by (metis length_0_conv length_sort)
    with fin1 have st': "st' = st1" by simp
    from False obtain i where i: "i \<in> set (ready_ops s st)" by (cases "ready_ops s st") auto
    with ok(2) have "i \<notin> sched_keys st" by blast
    with i k1 have "sched_keys st \<subset> sched_keys st1" by auto
    from psubset_card_mono [OF finite_sched_keys this]
    have "card (sched_keys st) < card (sched_keys st1)" .
    moreover have "card (completed st) \<le> card (completed st1)"
    proof (rule card_mono [OF _ c1])
      show "finite (completed st1)" using ck' unfolding st' by (rule finite_subset) simp
    qed
    ultimately show ?thesis using k' c' m1 unfolding st' turns_left_def by auto
  qed
  from goal show "turns_left p st' < turns_left p st"
    and "\<forall>m. length (module_available st' m) = length (module_available st m)" by simp_all
qed

lemma solve_loop_returns:
  assumes D: "distinct (map op_id (operations p))" and ps: "problem s = p"
    and topo: "deps_first p topo" "set topo = op_id ` set (operations p)"
  shows "sched_inv p st \<Longrightarrow> \<exists>res. solve_loop s priorities st = Some res"
proof (induction "turns_left p st" arbitrary: st rule: less_induct)
  case less
  show ?case
  proof (cases "card (completed st) < length (operations p)")
    case False
    then show ?thesis using ps by (subst solve_loop.simps) simp
  next
    case True
    show ?thesis
    proof (cases "solve_step s priorities st")
      case (Inl e)
      with True show ?thesis using ps by (subst solve_loop.simps) simp
    next
      case (Inr st')
      note prog = solve_step_progress(1) [OF D ps topo less.prems True Inr]
      from less.hyps [OF prog solve_step_inv [OF D ps less.prems Inr]]
      obtain res where "solve_loop s priorities st' = Some res" by blast
      with True Inr show ?thesis using ps by (subst solve_loop.simps) simp
    qed
  qed
qed

subsection \<open>The run does not raise\<close>

lemma op_map_get_distinct:
  assumes "distinct (map op_id (operations p))" "op \<in> set (operations p)"
  shows "op_map_get p (op_id op) = Inr op"
proof -
  let ?al = "map (\<lambda>op. (op_id op, op)) (operations p)"
  have d: "distinct (map fst (rev ?al))" using assms(1) by (simp add: comp_def rev_map [symmetric])
  have "(op_id op, op) \<in> set (rev ?al)" using assms(2) by auto
  with d have "map_of (rev ?al) (op_id op) = Some op" by (rule map_of_is_SomeI)
  then show ?thesis by (simp add: op_map_get_def op_map_def)
qed

lemma asap_sweep_durations:
  "asap_sweep p topo a = Inr a' \<Longrightarrow>
     \<forall>i \<in> set topo. \<exists>op d. op_map_get p i = Inr op \<and> get_duration op (modules p) = Inr d"
proof (induction topo arbitrary: a)
  case Nil
  then show ?case by simp
next
  case (Cons i topo)
  from Cons.prems obtain op where op: "op_map_get p i = Inr op"
    by (cases "op_map_get p i") auto
  from Cons.prems op obtain d where d: "get_duration op (modules p) = Inr d"
    by (cases "get_duration op (modules p)") auto
  from Cons.prems op d obtain a1 where "asap_sweep p topo a1 = Inr a'"
    by (auto simp: Let_def)
  from Cons.IH [OF this] op d show ?case by auto
qed

text \<open>What the construction of a scheduler establishes.\<close>

lemma new_ListScheduler_ready:
  assumes "new_ListScheduler limit p instances = Inr s"
  shows "\<exists>topo. deps_first p topo \<and> set topo = op_id ` set (operations p) \<and> distinct topo"
    and "\<forall>op \<in> set (operations p). \<exists>d. get_duration op (modules p) = Inr d"
    and "recursion_limit s = limit"
proof -
  note D = new_ListScheduler_Inr(3) [OF assms]
  from assms obtain a l where a: "compute_asap p = Inr a"
    and s: "s = \<lparr>problem = p, module_instances = instances, asap = a, alap = l,
            recursion_limit = limit\<rparr>"
    by (auto simp: new_ListScheduler_def ebind_eq_Inr)
  from s show "recursion_limit s = limit" by simp
  from a obtain topo where t: "topological_sort p = Inr topo"
    and sw: "asap_sweep p topo (\<lambda>_. 0) = Inr a"
    by (auto simp: compute_asap_def ebind_eq_Inr)
  note ids = topological_sort_distinct_ids [OF t]
  from topological_sort_deps_first [OF t] ids
  show "\<exists>topo. deps_first p topo \<and> set topo = op_id ` set (operations p) \<and> distinct topo"
    by blast
  show "\<forall>op \<in> set (operations p). \<exists>d. get_duration op (modules p) = Inr d"
  proof
    fix op assume op: "op \<in> set (operations p)"
    then have "op_id op \<in> set topo" using ids(2) by simp
    with asap_sweep_durations [OF sw] obtain op' d where
      "op_map_get p (op_id op) = Inr op'" "get_duration op' (modules p) = Inr d" by blast
    with op_map_get_distinct [OF D op] show "\<exists>d. get_duration op (modules p) = Inr d" by auto
  qed
qed

definition avail_ok :: "ListScheduler \<Rightarrow> sched_state \<Rightarrow> bool" where
  "avail_ok s st \<longleftrightarrow>
     (\<forall>op \<in> set (operations (problem s)).
        module_instances s (module_type op) \<noteq> None \<longrightarrow>
        module_available st (module_type op) \<noteq> [])"

lemma avail_ok_init:
  "enough_modules s \<Longrightarrow>
     avail_ok s \<lparr>schedule = [], completed = {}, module_available = init_module_available s,
                 current_time = 0\<rparr>"
  unfolding enough_modules_def avail_ok_def
  by (auto simp: init_module_available_def)

lemma avail_ok_lengths:
  "avail_ok s st \<Longrightarrow> \<forall>m. length (module_available st' m) = length (module_available st m) \<Longrightarrow>
     avail_ok s st'"
  unfolding avail_ok_def by (metis length_0_conv)

lemma schedule_ready_succeeds:
  assumes D: "distinct (map op_id (operations p))" and ps: "problem s = p"
    and dur: "\<forall>op \<in> set (operations p). \<exists>d. get_duration op (modules p) = Inr d"
  shows "set ready \<subseteq> op_id ` set (operations p) \<Longrightarrow> avail_ok s st \<Longrightarrow>
     \<exists>res. schedule_ready s ready (st, acc) = Inr res"
proof (induction ready arbitrary: st acc)
  case Nil
  then show ?case by simp
next
  case (Cons i ready)
  from Cons.prems(1) obtain op where op: "op \<in> set (operations p)" "op_id op = i" by auto
  from op_map_get_distinct [OF D op(1)] op(2) ps
  have g: "op_map_get (problem s) i = Inr op" by simp
  from dur op(1) ps obtain d where d: "get_duration op (modules (problem s)) = Inr d" by auto
  from Cons.prems(2) op(1) ps have "module_instances s (module_type op) \<noteq> None \<longrightarrow>
         module_available st (module_type op) \<noteq> []" by (simp add: avail_ok_def)
  from schedule_op_succeeds [OF g d this, of acc] obtain st1 acc1 where
    one: "schedule_op s i (st, acc) = Inr (st1, acc1)" by blast
  have "avail_ok s st1"
    using Cons.prems(2) schedule_op_avail [OF one] by (auto intro: avail_ok_lengths)
  from Cons.IH [OF _ this, of acc1] Cons.prems(1) one show ?case by simp
qed

lemma solve_step_succeeds:
  assumes D: "distinct (map op_id (operations p))" and ps: "problem s = p"
    and topo: "deps_first p topo" "set topo = op_id ` set (operations p)"
    and dur: "\<forall>op \<in> set (operations p). \<exists>d. get_duration op (modules p) = Inr d"
    and inv: "sched_inv p st" and av: "avail_ok s st"
    and less: "card (completed st) < length (operations p)"
  shows "\<exists>st'. solve_step s priorities st = Inr st'"
proof (cases "ready_ops s st = []")
  case True
  note run = ready_or_running [OF D ps topo inv less True]
  then have "schedule st \<noteq> []" by (auto simp: sched_keys_def)
  with advance_time_progress [OF run] True show ?thesis
    by (auto simp: solve_step_def Let_def)
next
  case False
  let ?ready = "sort_key (\<lambda>i. - priorities i) (ready_ops s st)"
  have "set ?ready \<subseteq> op_id ` set (operations p)"
    unfolding ready_ops_def ps by auto
  from schedule_ready_succeeds [OF D ps dur this av, of "[]"] obtain st1 acc1 where
    run: "schedule_ready s ?ready (st, []) = Inr (st1, acc1)" by (cases) auto
  note ok = ready_ops_ok [OF D ps inv]
  have "sched_keys st1 = sched_keys st \<union> set ?ready \<and> completed st \<subseteq> completed st1 \<and>
     acc1 = [] @ ?ready \<and>
     (\<forall>m. length (module_available st1 m) = length (module_available st m))"
    by (rule schedule_ready_outcome [OF D ps inv _ _ run]) (use ok in simp_all)
  then have "acc1 = ?ready" by simp
  with False have "acc1 \<noteq> []" by (metis length_0_conv length_sort)
  with run False show ?thesis by (simp add: solve_step_def Let_def)
qed

lemma solve_loop_succeeds:
  assumes D: "distinct (map op_id (operations p))" and ps: "problem s = p"
    and topo: "deps_first p topo" "set topo = op_id ` set (operations p)"
    and dur: "\<forall>op \<in> set (operations p). \<exists>d. get_duration op (modules p) = Inr d"
  shows "sched_inv p st \<Longrightarrow> avail_ok s st \<Longrightarrow>
     \<exists>st'. solve_loop s priorities st = Some (Inr st')"
proof (induction "turns_left p st" arbitrary: st rule: less_induct)
  case less
  show ?case
  proof (cases "card (completed st) < length (operations p)")
    case False
    then show ?thesis using ps by (subst solve_loop.simps) simp
  next
    case True
    from solve_step_succeeds [OF D ps topo dur less.prems True] obtain st1 where
      st1: "solve_step s priorities st = Inr st1" by blast
    note prog = solve_step_progress [OF D ps topo less.prems(1) True st1]
    have av1: "avail_ok s st1" using less.prems(2) prog(2) by (rule avail_ok_lengths)
    from less.hyps [OF prog(1) solve_step_inv [OF D ps less.prems(1) st1] av1]
    obtain st' where "solve_loop s priorities st1 = Some (Inr st')" by blast
    with True st1 show ?thesis using ps by (subst solve_loop.simps) simp
  qed
qed

text \<open>The critical-path priority: the recursion is no deeper than the number of operations.\<close>

lemma split_unique:
  "distinct (xs @ i # ys) \<Longrightarrow> xs @ i # ys = a @ i # c \<Longrightarrow> xs = a \<and> ys = c"
proof (induction xs arbitrary: a)
  case Nil
  then show ?case by (cases a) auto
next
  case (Cons x xs)
  show ?case
  proof (cases a)
    case Nil
    with Cons.prems show ?thesis by auto
  next
    case (Cons y l)
    with Cons.prems have e: "x = y" "xs @ i # ys = l @ i # c" by simp_all
    from Cons.prems(1) have "distinct (xs @ i # ys)" by simp
    from Cons.IH [OF this e(2)] e(1) Cons show ?thesis by simp
  qed
qed

lemma emap_succeeds:
  "\<forall>x \<in> set xs. \<exists>y. f x = Inr y \<Longrightarrow> \<exists>ys. emap f xs = Inr ys \<and> length ys = length xs"
proof (induction xs)
  case Nil
  then show ?case by simp
next
  case (Cons x xs)
  then obtain y ys where "f x = Inr y" "emap f xs = Inr ys" "length ys = length xs" by auto
  then show ?case by simp
qed

lemma longest_path_to_sink_succeeds:
  assumes D: "distinct (map op_id (operations p))"
    and topo: "deps_first p topo" "set topo = op_id ` set (operations p)" "distinct topo"
    and dur: "\<forall>op \<in> set (operations p). \<exists>d. get_duration op (modules p) = Inr d"
  shows "topo = xs @ i # ys \<Longrightarrow> length ys < n \<Longrightarrow> \<exists>v. longest_path_to_sink n p i = Inr v"
proof (induction n arbitrary: xs i ys)
  case 0
  then show ?case by simp
next
  case (Suc n)
  from Suc.prems(1) topo(2) obtain op where op: "op \<in> set (operations p)" "op_id op = i"
    by (metis imageE in_set_conv_decomp)
  from op_map_get_distinct [OF D op(1)] op(2) have g: "op_map_get p i = Inr op" by simp
  from dur op(1) obtain d where d: "get_duration op (modules p) = Inr d" by auto
  let ?succ = "filter (\<lambda>o'. i \<in> set (dependencies o')) (operations p)"
  have "\<forall>s \<in> set ?succ. \<exists>v. longest_path_to_sink n p (op_id s) = Inr v"
  proof
    fix s assume "s \<in> set ?succ"
    then have s: "s \<in> set (operations p)" "i \<in> set (dependencies s)" by auto
    from s(1) topo(2) have "op_id s \<in> set topo" by auto
    then obtain xs' ys' where sp: "topo = xs' @ op_id s # ys'" by (auto simp: in_set_conv_decomp)
    with topo(1) s have "i \<in> set xs'" unfolding deps_first_def by blast
    then obtain a b where ab: "xs' = a @ i # b" by (auto simp: in_set_conv_decomp)
    have "xs @ i # ys = topo" by (simp only: Suc.prems(1))
    also have "topo = xs' @ op_id s # ys'" by (rule sp)
    also have "\<dots> = a @ i # (b @ op_id s # ys')" by (simp add: ab)
    finally have eq: "xs @ i # ys = a @ i # (b @ op_id s # ys')" .
    have "distinct (xs @ i # ys)" using topo(3) by (simp only: Suc.prems(1))
    from split_unique [OF this eq] have "ys = b @ op_id s # ys'" by (rule conjunct2)
    with Suc.prems(2) have "length ys' < n" by simp
    from Suc.IH [OF sp this] show "\<exists>v. longest_path_to_sink n p (op_id s) = Inr v" .
  qed
  from emap_succeeds [OF this] obtain paths where
    paths: "emap (\<lambda>s. longest_path_to_sink n p (op_id s)) ?succ = Inr paths"
      "length paths = length ?succ" by blast
  show ?case
  proof (cases "?succ = []")
    case True
    with g d show ?thesis by simp
  next
    case False
    with paths(2) have "paths \<noteq> []" by auto
    from py_max_nonempty [OF this] obtain m where "py_max paths = Inr m" by blast
    with g d paths(1) False show ?thesis by simp
  qed
qed

lemma calculate_priorities_succeeds:
  "(strategy = ''critical_path'' \<longrightarrow>
      (\<forall>op \<in> set ops. \<exists>v. longest_path_to_sink (recursion_limit s) (problem s) (op_id op) = Inr v))
   \<Longrightarrow> \<exists>pr. calculate_priorities s strategy ops priorities = Inr pr"
proof (induction ops arbitrary: priorities)
  case Nil
  then show ?case by simp
next
  case (Cons op ops)
  show ?case
  proof (cases "strategy = ''critical_path''")
    case True
    with Cons.prems obtain v where
      v: "longest_path_to_sink (recursion_limit s) (problem s) (op_id op) = Inr v" by auto
    have "\<exists>pr. calculate_priorities s strategy ops (priorities(op_id op := v)) = Inr pr"
      by (rule Cons.IH) (use Cons.prems in simp)
    then obtain pr where
      "calculate_priorities s strategy ops (priorities(op_id op := v)) = Inr pr" by blast
    with v True show ?thesis by (simp add: Let_def)
  next
    case False
    then have "\<And>pr. \<exists>pr'. calculate_priorities s strategy ops pr = Inr pr'"
      by (intro Cons.IH) simp
    with False show ?thesis by (auto simp: Let_def)
  qed
qed

lemma module_usage_of_succeeds:
  "\<forall>i \<in> fst ` set sched. \<exists>op. op_map_get (problem s) i = Inr op \<Longrightarrow>
     \<exists>u. module_usage_of s sched usage = Inr u"
proof (induction sched arbitrary: usage)
  case Nil
  then show ?case by simp
next
  case (Cons x sched)
  obtain i b e where x: "x = (i, b, e)" by (cases x)
  with Cons.prems obtain op where "op_map_get (problem s) i = Inr op" by auto
  moreover from Cons.IH [of "usage_add (module_type op) (e - b) usage"] Cons.prems
  obtain u where "module_usage_of s sched (usage_add (module_type op) (e - b) usage) = Inr u"
    by auto
  ultimately show ?case by (simp add: x)
qed

lemma finish_solve_succeeds:
  assumes D: "distinct (map op_id (operations p))" and ps: "problem s = p"
    and ne: "operations p \<noteq> []"
    and inv: "sched_inv p st" and full: "length (operations p) \<le> card (completed st)"
  shows "\<exists>r. finish_solve s strategy st = Inr r"
proof -
  from ne obtain op where op: "op \<in> set (operations p)" by (cases "operations p") auto
  from sched_inv_complete [OF D inv full op] have "schedule st \<noteq> []" by auto
  then have "map (\<lambda>(i, b, e). e) (schedule st) \<noteq> []" by simp
  from py_max_nonempty [OF this] obtain mk where
    mk: "py_max (map (\<lambda>(i, b, e). e) (schedule st)) = Inr mk" by blast
  have "\<forall>i \<in> fst ` set (schedule st). \<exists>op. op_map_get (problem s) i = Inr op"
  proof
    fix i assume "i \<in> fst ` set (schedule st)"
    then have "i \<in> dom (map_of (schedule st))" by (simp add: dom_map_of_conv_image_fst)
    then obtain b e where "map_of (schedule st) i = Some (b, e)" by auto
    with inv obtain op' where "op' \<in> set (operations p)" "op_id op' = i"
      unfolding sched_inv_def by blast
    with op_map_get_distinct [OF D this(1)] ps
    show "\<exists>op. op_map_get (problem s) i = Inr op" by auto
  qed
  from module_usage_of_succeeds [OF this] obtain u where
    "module_usage_of s (schedule st)
       (map (\<lambda>(mtype, m).
               (mtype, (0, mk * (case module_instances s mtype of
                                   None \<Rightarrow> int (length (operations (problem s)))
                                 | Some count \<Rightarrow> count))))
          (modules (problem s))) = Inr u" by blast
  with mk show ?thesis by (simp add: finish_solve_def)
qed

subsection \<open>The schedules that \<open>solve\<close> returns\<close>

lemma solve_returns:
  assumes c: "new_ListScheduler limit p instances = Inr s"
  shows "\<exists>res. solve s strategy = Some res"
proof -
  note s = new_ListScheduler_Inr [OF c]
  from new_ListScheduler_ready(1) [OF c] obtain topo where
    topo: "deps_first p topo" "set topo = op_id ` set (operations p)" by blast
  show ?thesis
  proof (cases "calculate_priorities s strategy (operations (problem s)) (\<lambda>_. 0)")
    case (Inl e)
    then show ?thesis by (simp add: solve_def)
  next
    case (Inr priorities)
    from solve_loop_returns [OF s(3) s(1) topo sched_inv_init] obtain res where
      "solve_loop s priorities
         \<lparr>schedule = [], completed = {}, module_available = init_module_available s,
          current_time = 0\<rparr> = Some res" by blast
    with Inr show ?thesis by (cases res) (simp_all add: solve_def)
  qed
qed

lemma solve_succeeds:
  assumes v: "post_init p = Inr ()"
    and c: "new_ListScheduler limit p instances = Inr s"
    and en: "enough_modules s"
    and lim: "strategy = ''critical_path'' \<longrightarrow> length (operations p) \<le> limit"
  shows "\<exists>r. solve s strategy = Some (Inr r)"
proof -
  note s = new_ListScheduler_Inr [OF c]
  note rdy = new_ListScheduler_ready [OF c]
  from rdy(1) obtain topo where
    topo: "deps_first p topo" "set topo = op_id ` set (operations p)" "distinct topo" by blast
  from v have ne: "operations p \<noteq> []" by (simp add: post_init_Inr)
  have len: "length topo = length (operations p)"
  proof -
    have "length topo = card (set topo)" using topo(3) by (simp add: distinct_card)
    also have "\<dots> = card (set (map op_id (operations p)))" using topo(2) by simp
    also have "\<dots> = length (map op_id (operations p))" using s(3) by (rule distinct_card)
    finally show ?thesis by simp
  qed
  have "strategy = ''critical_path'' \<longrightarrow>
      (\<forall>op \<in> set (operations (problem s)).
         \<exists>v. longest_path_to_sink (recursion_limit s) (problem s) (op_id op) = Inr v)"
  proof (intro impI ballI)
    fix op assume cp: "strategy = ''critical_path''" and "op \<in> set (operations (problem s))"
    then have "op_id op \<in> set topo" using topo(2) s(1) by auto
    then obtain xs ys where sp: "topo = xs @ op_id op # ys" by (auto simp: in_set_conv_decomp)
    then have "length ys < length topo" by simp
    with len lim cp have "length ys < limit" by simp
    from longest_path_to_sink_succeeds [OF s(3) topo rdy(2) sp this]
    show "\<exists>v. longest_path_to_sink (recursion_limit s) (problem s) (op_id op) = Inr v"
      by (simp add: s(1) rdy(3))
  qed
  from calculate_priorities_succeeds [OF this] obtain priorities where
    pr: "calculate_priorities s strategy (operations (problem s)) (\<lambda>_. 0) = Inr priorities"
    by blast
  from solve_loop_succeeds [OF s(3) s(1) topo(1,2) rdy(2) sched_inv_init avail_ok_init [OF en]]
  obtain st where
    l: "solve_loop s priorities
         \<lparr>schedule = [], completed = {}, module_available = init_module_available s,
          current_time = 0\<rparr> = Some (Inr st)" by blast
  note fin = solve_loop_inv [OF s(3) s(1) l sched_inv_init]
  from finish_solve_succeeds [OF s(3) s(1) ne fin] obtain r where
    "finish_solve s strategy st = Inr r" by blast
  with pr l show ?thesis by (simp add: solve_def)
qed

lemma solve_schedule:
  assumes c: "new_ListScheduler limit p instances = Inr s"
    and r: "solve s strategy = Some (Inr r)"
  shows "fst ` set (r_schedule r) = op_id ` set (operations p)"
    and "op \<in> set (operations p) \<Longrightarrow>
       \<exists>b e. map_of (r_schedule r) (op_id op) = Some (b, e) \<and>
         entry_ok p (r_schedule r) op b e"
proof -
  note s = new_ListScheduler_Inr [OF c]
  from solve_Inr [OF r] obtain priorities st where
    l: "solve_loop s priorities
       \<lparr>schedule = [], completed = {}, module_available = init_module_available s,
        current_time = 0\<rparr> = Some (Inr st)" and rs: "r_schedule r = schedule st"
    by blast
  note fin = solve_loop_inv [OF s(3) s(1) l sched_inv_init]
  show "fst ` set (r_schedule r) = op_id ` set (operations p)"
  proof (intro equalityI subsetI)
    fix i assume "i \<in> fst ` set (r_schedule r)"
    then have "i \<in> dom (map_of (schedule st))" by (simp add: rs dom_map_of_conv_image_fst)
    then obtain b e where "map_of (schedule st) i = Some (b, e)" by auto
    with fin(1) show "i \<in> op_id ` set (operations p)" unfolding sched_inv_def by blast
  next
    fix i assume "i \<in> op_id ` set (operations p)"
    then obtain op where op: "op \<in> set (operations p)" "i = op_id op" by auto
    from sched_inv_complete [OF s(3) fin op(1)] have "i \<in> dom (map_of (schedule st))"
      using op(2) by auto
    then show "i \<in> fst ` set (r_schedule r)" by (simp add: rs dom_map_of_conv_image_fst)
  qed
  assume "op \<in> set (operations p)"
  from sched_inv_complete [OF s(3) fin this]
  show "\<exists>b e. map_of (r_schedule r) (op_id op) = Some (b, e) \<and>
         entry_ok p (r_schedule r) op b e" by (simp add: rs)
qed

lemma get_duration_resolved:
  "get_duration op mods = Inr d \<longleftrightarrow>
     (case duration op of
        Some d' \<Rightarrow> d = d'
      | None \<Rightarrow> \<exists>m. map_of mods (module_type op) = Some m \<and> d = m_exec_time m)"
  by (auto simp: get_duration_def split: option.splits)

text \<open>
  C1. Let the problem instance have passed construction and the scheduler have been
  constructed for it (which needs the topological sort to succeed: the dependency graph
  is acyclic). Then, under any priority strategy and any module-instance map:
  \<^item> \<open>solve\<close> returns (the scheduling loop ends), with a schedule or with an exception;
  \<^item> it returns a schedule when every module type that an operation needs and that the
    instance map bounds has at least one instance and is in the module library, and, for
    the \<open>critical_path\<close> strategy, the recursion limit is at least the number of
    operations;
  \<^item> in every schedule that it returns, the scheduled operations are exactly the
    operations of the instance, and every operation has a window \<open>(start, end)\<close> such
    that \<open>end - start\<close> is the operation's own duration override if that is set and
    else the \<open>exec_time\<close> of the module of its type in the library, and such that every
    dependency of the operation has a window that ends no later than \<open>start\<close>.
\<close>

theorem C1_schedule_respects_dependencies_and_durations:
  assumes "post_init p = Inr ()"
    and "new_ListScheduler limit p instances = Inr s"
  shows "(\<exists>res. solve s strategy = Some res) \<and>
     (enough_modules s \<and>
      (strategy = ''critical_path'' \<longrightarrow> length (operations p) \<le> limit) \<longrightarrow>
        (\<exists>r. solve s strategy = Some (Inr r))) \<and>
     (\<forall>r. solve s strategy = Some (Inr r) \<longrightarrow>
        fst ` set (r_schedule r) = op_id ` set (operations p) \<and>
        (\<forall>op \<in> set (operations p).
           \<exists>b e. map_of (r_schedule r) (op_id op) = Some (b, e) \<and>
             (case duration op of
                Some d \<Rightarrow> e - b = d
              | None \<Rightarrow> \<exists>m. map_of (modules p) (module_type op) = Some m \<and>
                          e - b = m_exec_time m) \<and>
             (\<forall>dep \<in> set (dependencies op).
                \<exists>b' e'. map_of (r_schedule r) dep = Some (b', e') \<and> e' \<le> b)))"
proof (intro conjI impI allI ballI)
  show "\<exists>res. solve s strategy = Some res" using assms(2) by (rule solve_returns)
next
  assume "enough_modules s \<and>
      (strategy = ''critical_path'' \<longrightarrow> length (operations p) \<le> limit)"
  then show "\<exists>r. solve s strategy = Some (Inr r)"
    using solve_succeeds [OF assms] by blast
next
  fix r assume "solve s strategy = Some (Inr r)"
  then show "fst ` set (r_schedule r) = op_id ` set (operations p)"
    using solve_schedule(1) [OF assms(2)] by blast
next
  fix r op assume r: "solve s strategy = Some (Inr r)" and op: "op \<in> set (operations p)"
  from solve_schedule(2) [OF assms(2) r op] obtain b e where
    be: "map_of (r_schedule r) (op_id op) = Some (b, e)" "entry_ok p (r_schedule r) op b e"
    by blast
  from be(2) have "get_duration op (modules p) = Inr (e - b)"
    and deps: "\<forall>dep \<in> set (dependencies op).
                \<exists>b' e'. map_of (r_schedule r) dep = Some (b', e') \<and> e' \<le> b"
    by (simp_all add: entry_ok_def)
  then have "case duration op of
                Some d \<Rightarrow> e - b = d
              | None \<Rightarrow> \<exists>m. map_of (modules p) (module_type op) = Some m \<and>
                          e - b = m_exec_time m"
    by (simp add: get_duration_resolved)
  with be(1) deps show "\<exists>b e. map_of (r_schedule r) (op_id op) = Some (b, e) \<and>
             (case duration op of
                Some d \<Rightarrow> e - b = d
              | None \<Rightarrow> \<exists>m. map_of (modules p) (module_type op) = Some m \<and>
                          e - b = m_exec_time m) \<and>
             (\<forall>dep \<in> set (dependencies op).
                \<exists>b' e'. map_of (r_schedule r) dep = Some (b', e') \<and> e' \<le> b)"
    by blast
qed

section \<open>The scheduler on the example instances\<close>

lemma chain5_operations:
  "operations chain5 = [chain_op 1 [] None, chain_op 2 [1] (Some 5), chain_op 3 [2] None,
        chain_op 4 [3] (Some 5), chain_op 5 [4] None]"
  by (simp add: chain5_def)

lemma chain5_modules:
  "modules chain5 = [(''mixer'', \<lparr>m_name = ''mixer'', m_type = MIXER, m_width = 3,
         m_height = 3, m_exec_time = 5, m_position = None\<rparr>)]"
  by (simp add: chain5_def)

lemma chain5_valid: "post_init chain5 = Inr ()"
  by (simp add: post_init_def chain5_def chain_op_def)

lemma chain5_topological_sort: "topological_sort chain5 = Inr [1, 2, 3, 4, 5]"
  by code_simp

lemma chain5_asap:
  "compute_asap chain5 = Inr ((\<lambda>_. 0)(2 := 5, 3 := 10, 4 := 15, 5 := 20))"
  by (simp add: compute_asap_def chain5_topological_sort chain5_operations chain5_modules
      chain_op_def op_map_get_def op_map_def get_duration_def)

lemma chain5_alap:
  "compute_alap chain5 = Inr ((\<lambda>_. 25)(4 := 20, 3 := 15, 2 := 10, 1 := 5))"
  by (simp add: compute_alap_def chain5_asap chain5_topological_sort chain5_operations
      chain5_modules chain_op_def op_map_get_def op_map_def get_duration_def)

lemma chain5_new_ListScheduler:
  "new_ListScheduler limit chain5 Map.empty = Inr (chain5_scheduler limit)"
  by (simp add: new_ListScheduler_def chain5_asap chain5_alap chain5_scheduler_def)

lemma chain5_solve:
  "solve (chain5_scheduler limit) ''asap'' = Some (Inr
     \<lparr>r_schedule = [(1, 0, 5), (2, 5, 10), (3, 10, 15), (4, 15, 20), (5, 20, 25)],
      makespan = 25, module_usage = [(''mixer'', 25, 125)],
      priority_strategy = ''asap''\<rparr>)"
  by code_simp

lemma fork3_operations:
  "operations fork3 = [chain_op 1 [] None, chain_op 2 [1] (Some 3), chain_op 3 [1] None]"
  by (simp add: fork3_def)

lemma fork3_modules:
  "modules fork3 = [(''mixer'', \<lparr>m_name = ''mixer'', m_type = MIXER, m_width = 3,
         m_height = 3, m_exec_time = 4, m_position = None\<rparr>)]"
  by (simp add: fork3_def)

lemma fork3_valid: "post_init fork3 = Inr ()"
  by (simp add: post_init_def fork3_def chain_op_def)

lemma fork3_topological_sort: "topological_sort fork3 = Inr [1, 2, 3]"
  by code_simp

lemma fork3_asap: "compute_asap fork3 = Inr ((\<lambda>_. 0)(2 := 4, 3 := 4))"
  by (simp add: compute_asap_def fork3_topological_sort fork3_operations fork3_modules
      chain_op_def op_map_get_def op_map_def get_duration_def)

lemma fork3_alap: "compute_alap fork3 = Inr ((\<lambda>_. 8)(1 := 4))"
  by (simp add: compute_alap_def fork3_asap fork3_topological_sort fork3_operations
      fork3_modules chain_op_def op_map_get_def op_map_def get_duration_def)

lemma fork3_new_ListScheduler:
  "new_ListScheduler 1000 fork3 [''mixer'' \<mapsto> 1] = Inr fork3_scheduler"
  by (simp add: new_ListScheduler_def fork3_asap fork3_alap fork3_scheduler_def)

lemma fork3_solve: "solve fork3_scheduler ''critical_path'' = Some (Inr fork3_result)"
  by code_simp

lemma fork3_enough_modules: "enough_modules fork3_scheduler"
  by (simp add: enough_modules_def fork3_scheduler_def fork3_def chain_op_def)

theorem C1_schedule_respects_dependencies_and_durations_witness:
  "post_init fork3 = Inr () \<and>
   new_ListScheduler 1000 fork3 [''mixer'' \<mapsto> 1] = Inr fork3_scheduler \<and>
   (\<exists>res. solve fork3_scheduler ''critical_path'' = Some res) \<and>
   (\<exists>r. solve fork3_scheduler ''critical_path'' = Some (Inr r)) \<and>
   solve fork3_scheduler ''critical_path'' = Some (Inr fork3_result) \<and>
   fst ` set (r_schedule fork3_result) = op_id ` set (operations fork3) \<and>
   chain_op 2 [1] (Some 3) \<in> set (operations fork3) \<and>
   (\<exists>b e. map_of (r_schedule fork3_result) (op_id (chain_op 2 [1] (Some 3))) = Some (b, e) \<and>
      (case duration (chain_op 2 [1] (Some 3)) of
         Some d \<Rightarrow> e - b = d
       | None \<Rightarrow> \<exists>m. map_of (modules fork3) (module_type (chain_op 2 [1] (Some 3))) = Some m \<and>
                   e - b = m_exec_time m) \<and>
      (\<forall>dep \<in> set (dependencies (chain_op 2 [1] (Some 3))).
         \<exists>b' e'. map_of (r_schedule fork3_result) dep = Some (b', e') \<and> e' \<le> b)) \<and>
   chain_op 3 [1] None \<in> set (operations fork3) \<and>
   (\<exists>b e. map_of (r_schedule fork3_result) (op_id (chain_op 3 [1] None)) = Some (b, e) \<and>
      (case duration (chain_op 3 [1] None) of
         Some d \<Rightarrow> e - b = d
       | None \<Rightarrow> \<exists>m. map_of (modules fork3) (module_type (chain_op 3 [1] None)) = Some m \<and>
                   e - b = m_exec_time m) \<and>
      (\<forall>dep \<in> set (dependencies (chain_op 3 [1] None)).
         \<exists>b' e'. map_of (r_schedule fork3_result) dep = Some (b', e') \<and> e' \<le> b))"
proof -
  have m2: "chain_op 2 [1] (Some 3) \<in> set (operations fork3)"
    by (simp add: fork3_operations)
  have m3: "chain_op 3 [1] None \<in> set (operations fork3)"
    by (simp add: fork3_operations)
  have len: "''critical_path'' = ''critical_path'' \<longrightarrow> length (operations fork3) \<le> 1000"
    by (simp add: fork3_operations)
  note c = C1_schedule_respects_dependencies_and_durations
    [OF fork3_valid fork3_new_ListScheduler, of "''critical_path''"]
  note c1 = c [THEN conjunct1]
  note c2 = c [THEN conjunct2, THEN conjunct1, THEN mp, OF conjI [OF fork3_enough_modules len]]
  note c3 = c [THEN conjunct2, THEN conjunct2, THEN spec, THEN mp, OF fork3_solve]
  note keys = c3 [THEN conjunct1]
  note w2 = c3 [THEN conjunct2, THEN bspec, OF m2]
  note w3 = c3 [THEN conjunct2, THEN bspec, OF m3]
  show ?thesis
    by (intro conjI)
      (rule fork3_valid fork3_new_ListScheduler fork3_solve c1 c2 keys m2 m3 w2 w3)+
qed

text \<open>
  C7. On the linear chain of five operations of duration 5, with no module-instance map
  (unlimited resources) and the \<open>asap\<close> strategy, the instance is valid, the scheduler
  is constructed, and \<open>solve\<close> returns the schedule in which operation \<open>i\<close> has the
  window \<open>((i - 1) * 5, i * 5)\<close>, with makespan 25.
\<close>

theorem C7_linear_chain:
  "post_init chain5 = Inr () \<and>
   new_ListScheduler limit chain5 Map.empty = Inr (chain5_scheduler limit) \<and>
   solve (chain5_scheduler limit) ''asap'' = Some (Inr
     \<lparr>r_schedule = [(1, 0, 5), (2, 5, 10), (3, 10, 15), (4, 15, 20), (5, 20, 25)],
      makespan = 25, module_usage = [(''mixer'', 25, 125)],
      priority_strategy = ''asap''\<rparr>)"
  by (intro conjI) (rule chain5_valid chain5_new_ListScheduler chain5_solve)+


section \<open>Paths returned by the router\<close>

lemma walk_back_empty: "walk_back Map.empty node path = Some path"
  by (subst walk_back.simps) simp

text \<open>
  C9. When the start cell of a droplet equals its destination, \<open>route_single\<close> returns
  the path of the one entry \<open>(x, y, start_time)\<close>, whatever the grid, the static
  obstacles, the reservation tables, the deadline and the set of passable droplets are:
  the goal test on the first popped state comes before every other check.
\<close>

theorem C9_start_equals_destination:
  "d_start droplet = d_end droplet \<Longrightarrow>
     route_single r droplet avoid_droplets =
       Some (Some [(fst (d_start droplet), snd (d_start droplet), start_time droplet)])"
  by (simp add: route_single_def Let_def reconstruct_path_def walk_back_empty start_pos_def)

theorem C9_start_equals_destination_witness:
  "d_start droplet_home = d_end droplet_home \<and>
   (1, 1) \<in> static_obstacles blocked_router \<and>
   reservations blocked_router (1, 1, 7) = Some 3 \<and>
   blocked_cells blocked_router (1, 1, 7) = Some 3 \<and>
   deadline droplet_home < start_time droplet_home \<and>
   route_single blocked_router droplet_home {} = Some (Some [(1, 1, 7)])"
  using C9_start_equals_destination [of droplet_home blocked_router "{}"]
  by (simp add: droplet_home_def blocked_router_def)

subsection \<open>The search keeps a tree of checked moves\<close>

fun tick :: "pos \<Rightarrow> int" where
  "tick (x, y, t) = t"

fun move_checked :: "AStarRouter \<Rightarrow> Droplet \<Rightarrow> int set \<Rightarrow> pos \<Rightarrow> bool" where
  "move_checked r droplet avoid (x, y, t) \<longleftrightarrow>
     t \<le> deadline droplet \<and> 0 \<le> x \<and> x < width r \<and> 0 \<le> y \<and> y < height r \<and>
     (x, y) \<notin> static_obstacles r \<and> is_valid_move r x y t (d_id droplet) avoid"

definition came_ok ::
  "AStarRouter \<Rightarrow> Droplet \<Rightarrow> int set \<Rightarrow> (pos \<Rightarrow> pos option) \<Rightarrow> bool" where
  "came_ok r droplet avoid came_from \<longleftrightarrow>
     (\<forall>k p. came_from k = Some p \<longrightarrow>
        step_ok p k \<and> (p = start_pos droplet \<or> p \<in> dom came_from) \<and>
        start_time droplet \<le> tick p \<and> move_checked r droplet avoid k)"

definition open_ok :: "Droplet \<Rightarrow> (pos \<Rightarrow> pos option) \<Rightarrow> open_entry list \<Rightarrow> bool" where
  "open_ok droplet came_from open_set \<longleftrightarrow>
     (\<forall>e \<in> set open_set.
        (node_pos (snd (snd e)) = start_pos droplet \<or> node_pos (snd (snd e)) \<in> dom came_from) \<and>
        start_time droplet \<le> n_t (snd (snd e)))"

lemma came_okD:
  assumes "came_ok r droplet avoid came_from" "came_from k = Some p"
  shows "step_ok p k" and "p = start_pos droplet \<or> p \<in> dom came_from"
    and "start_time droplet \<le> tick p" and "move_checked r droplet avoid k"
  using assms unfolding came_ok_def by blast+

fun path_ok :: "pos list \<Rightarrow> bool" where
  "path_ok [] \<longleftrightarrow> True"
| "path_ok [p] \<longleftrightarrow> True"
| "path_ok (p # q # ps) \<longleftrightarrow> step_ok p q \<and> path_ok (q # ps)"

lemma path_ok_nth:
  "path_ok ps \<longleftrightarrow> (\<forall>i. Suc i < length ps \<longrightarrow> step_ok (ps ! i) (ps ! Suc i))"
proof (induction ps rule: path_ok.induct)
  case 1
  then show ?case by simp
next
  case (2 p)
  then show ?case by simp
next
  case (3 p q ps)
  show ?case
  proof
    assume a: "path_ok (p # q # ps)"
    show "\<forall>i. Suc i < length (p # q # ps) \<longrightarrow> step_ok ((p # q # ps) ! i) ((p # q # ps) ! Suc i)"
    proof (intro allI impI)
      fix i assume i: "Suc i < length (p # q # ps)"
      show "step_ok ((p # q # ps) ! i) ((p # q # ps) ! Suc i)"
      proof (cases i)
        case 0
        with a show ?thesis by simp
      next
        case (Suc j)
        with a i "3.IH" show ?thesis by simp
      qed
    qed
  next
    assume a: "\<forall>i. Suc i < length (p # q # ps) \<longrightarrow> step_ok ((p # q # ps) ! i) ((p # q # ps) ! Suc i)"
    from a [rule_format, of 0] have "step_ok p q" by simp
    moreover have "\<forall>i. Suc i < length (q # ps) \<longrightarrow> step_ok ((q # ps) ! i) ((q # ps) ! Suc i)"
    proof (intro allI impI)
      fix i assume "Suc i < length (q # ps)"
      with a [rule_format, of "Suc i"] show "step_ok ((q # ps) ! i) ((q # ps) ! Suc i)" by simp
    qed
    ultimately show "path_ok (p # q # ps)" using "3.IH" by simp
  qed
qed

lemma path_ok_snoc:
  "path_ok ps \<Longrightarrow> ps \<noteq> [] \<Longrightarrow> step_ok (last ps) q \<Longrightarrow> path_ok (ps @ [q])"
  by (induction ps rule: path_ok.induct) auto

text \<open>The nodes that the reconstruction loop collects, from a node back to the start.\<close>

fun back_chain :: "(pos \<Rightarrow> pos option) \<Rightarrow> pos \<Rightarrow> pos \<Rightarrow> pos list \<Rightarrow> bool" where
  "back_chain came_from start node [] \<longleftrightarrow> node = start \<and> came_from node = None"
| "back_chain came_from start node (n # w) \<longleftrightarrow>
     n = node \<and> (\<exists>p. came_from node = Some p \<and> back_chain came_from start p w)"

lemma start_not_reached:
  assumes "came_ok r droplet avoid came_from"
  shows "came_from (start_pos droplet) = None"
proof (rule ccontr)
  assume "came_from (start_pos droplet) \<noteq> None"
  then obtain p where p: "came_from (start_pos droplet) = Some p" by auto
  note s = came_okD(1) [OF assms p] and t = came_okD(3) [OF assms p]
  obtain x y t where "p = (x, y, t)" by (cases p)
  with s t show False by (simp add: start_pos_def)
qed

lemma walk_back_chain:
  assumes ok: "came_ok r droplet avoid came_from"
  shows "node = start_pos droplet \<or> node \<in> dom came_from \<Longrightarrow>
     start_time droplet \<le> tick node \<Longrightarrow> n = nat (tick node - start_time droplet) \<Longrightarrow>
     \<exists>w. walk_back came_from node acc = Some (acc @ w) \<and>
         back_chain came_from (start_pos droplet) node w"
proof (induction n arbitrary: node acc)
  case 0
  show ?case
  proof (cases "came_from node")
    case None
    with "0.prems"(1) have "node = start_pos droplet" by auto
    with None have "walk_back came_from node acc = Some (acc @ [])"
      "back_chain came_from (start_pos droplet) node []"
      by (simp_all add: walk_back.simps)
    then show ?thesis by blast
  next
    case (Some p)
    note s = came_okD(1) [OF ok Some] and t = came_okD(3) [OF ok Some]
    obtain x y t where p: "p = (x, y, t)" by (cases p)
    obtain x' y' t' where n: "node = (x', y', t')" by (cases node)
    from s t "0.prems"(2,3) show ?thesis by (simp add: p n)
  qed
next
  case (Suc n)
  show ?case
  proof (cases "came_from node")
    case None
    with Suc.prems(1) have "node = start_pos droplet" by auto
    with Suc.prems(3) show ?thesis by (simp add: start_pos_def)
  next
    case (Some p)
    note s = came_okD(1) [OF ok Some] and t = came_okD(3) [OF ok Some]
      and d = came_okD(2) [OF ok Some]
    obtain x y t where p: "p = (x, y, t)" by (cases p)
    obtain x' y' t' where nd: "node = (x', y', t')" by (cases node)
    from s Suc.prems(3) have "n = nat (tick p - start_time droplet)" by (simp add: p nd)
    from Suc.IH [OF d t this, of "acc @ [node]"] obtain w where
      w: "walk_back came_from p (acc @ [node]) = Some ((acc @ [node]) @ w)"
      "back_chain came_from (start_pos droplet) p w" by blast
    have "walk_back came_from node acc = Some (acc @ (node # w))"
      using w(1) Some by (subst walk_back.simps) simp
    moreover have "back_chain came_from (start_pos droplet) node (node # w)"
      using w(2) Some by simp
    ultimately show ?thesis by blast
  qed
qed

lemma back_chain_path:
  assumes ok: "came_ok r droplet avoid came_from"
  shows "back_chain came_from (start_pos droplet) node w \<Longrightarrow>
     path_ok (rev (w @ [start_pos droplet])) \<and>
     last (rev (w @ [start_pos droplet])) = node \<and>
     (\<forall>k \<in> set w. move_checked r droplet avoid k)"
proof (induction w arbitrary: node)
  case Nil
  then show ?case by simp
next
  case (Cons n w)
  from Cons.prems obtain p where n: "n = node" and p: "came_from node = Some p"
    and c: "back_chain came_from (start_pos droplet) p w" by auto
  note s = came_okD(1) [OF ok p] and m = came_okD(4) [OF ok p]
  from Cons.IH [OF c] have ih: "path_ok (rev (w @ [start_pos droplet]))"
    "last (rev (w @ [start_pos droplet])) = p"
    "\<forall>k \<in> set w. move_checked r droplet avoid k" by auto
  have "path_ok (rev (w @ [start_pos droplet]) @ [node])"
    by (rule path_ok_snoc) (use ih s in auto)
  with ih(3) m n show ?case by simp
qed

lemma expand_move_inv:
  assumes ok: "came_ok r droplet avoid came_from" "open_ok droplet came_from open_set"
    and cur: "node_pos current = start_pos droplet \<or> node_pos current \<in> dom came_from"
      "start_time droplet \<le> n_t current"
    and mv: "mv \<in> set moves"
    and ex: "expand_move r droplet avoid closed_set current mv (open_set, came_from, counter) =
      (open_set', came_from', counter')"
  shows "came_ok r droplet avoid came_from'" and "open_ok droplet came_from' open_set'"
    and "dom came_from \<subseteq> dom came_from'"
proof -
  obtain dx dy where mvd: "mv = (dx, dy)" by (cases mv)
  let ?np = "(n_x current + dx, n_y current + dy, n_t current + 1)"
  define pushed where "pushed \<longleftrightarrow> open_set' = open_set @ [(g_score current + 1 +
        heuristic (n_x current + dx, n_y current + dy) (d_end droplet), counter + 1,
        \<lparr>f_score = g_score current + 1 +
           heuristic (n_x current + dx, n_y current + dy) (d_end droplet),
         g_score = g_score current + 1, n_x = n_x current + dx, n_y = n_y current + dy,
         n_t = n_t current + 1\<rparr>)] \<and>
      came_from' = came_from(?np \<mapsto> node_pos current) \<and>
      move_checked r droplet avoid ?np"
  from ex have cases: "(open_set' = open_set \<and> came_from' = came_from) \<or> pushed"
    unfolding mvd expand_move_def Let_def pushed_def by (auto split: if_splits)
  have step: "step_ok (node_pos current) ?np"
    using mv by (auto simp: mvd moves_def node_pos_def)
  have tick_cur: "start_time droplet \<le> tick (node_pos current)"
    using cur(2) by (simp add: node_pos_def)
  show "came_ok r droplet avoid came_from'"
  proof (cases pushed)
    case False
    with cases ok(1) show ?thesis by simp
  next
    case True
    then have cf: "came_from' = came_from(?np \<mapsto> node_pos current)"
      and mc: "move_checked r droplet avoid ?np" unfolding pushed_def by simp_all
    show ?thesis unfolding came_ok_def
    proof (intro allI impI)
      fix k p assume kp: "came_from' k = Some p"
      show "step_ok p k \<and> (p = start_pos droplet \<or> p \<in> dom came_from') \<and>
        start_time droplet \<le> tick p \<and> move_checked r droplet avoid k"
      proof (cases "k = ?np")
        case True
        with kp have "p = node_pos current" by (simp add: cf)
        with True step cur(1) tick_cur mc show ?thesis by (auto simp: cf)
      next
        case False
        with kp have old: "came_from k = Some p" by (simp add: cf)
        from came_okD [OF ok(1) old] show ?thesis by (auto simp: cf)
      qed
    qed
  qed
  show "open_ok droplet came_from' open_set'"
  proof (cases pushed)
    case False
    with cases ok(2) show ?thesis by simp
  next
    case True
    with ok(2) cur(2) show ?thesis
      unfolding open_ok_def pushed_def by (auto simp: node_pos_def)
  qed
  show "dom came_from \<subseteq> dom came_from'"
  proof (cases pushed)
    case False
    with cases show ?thesis by simp
  next
    case True
    then have "came_from' = came_from(?np \<mapsto> node_pos current)"
      by (simp add: pushed_def)
    then have "dom came_from' = insert ?np (dom came_from)" by simp
    then show ?thesis by blast
  qed
qed

lemma expand_moves_inv:
  assumes cur0: "start_time droplet \<le> n_t current"
  shows "came_ok r droplet avoid came_from \<Longrightarrow> open_ok droplet came_from open_set \<Longrightarrow>
     node_pos current = start_pos droplet \<or> node_pos current \<in> dom came_from \<Longrightarrow>
     set mvs \<subseteq> set moves \<Longrightarrow>
     fold (expand_move r droplet avoid closed_set current) mvs (open_set, came_from, counter) =
       (open_set', came_from', counter') \<Longrightarrow>
     came_ok r droplet avoid came_from' \<and> open_ok droplet came_from' open_set'"
proof (induction mvs arbitrary: open_set came_from counter)
  case Nil
  then show ?case by simp
next
  case (Cons mv mvs)
  obtain o1 c1 k1 where s:
    "expand_move r droplet avoid closed_set current mv (open_set, came_from, counter) = (o1, c1, k1)"
    by (cases "expand_move r droplet avoid closed_set current mv (open_set, came_from, counter)")
  from Cons.prems(4) have mv: "mv \<in> set moves" and rest: "set mvs \<subseteq> set moves" by simp_all
  note one = expand_move_inv [OF Cons.prems(1,2,3) cur0 mv s]
  from Cons.prems(3) one(3) have cur1: "node_pos current = start_pos droplet \<or>
      node_pos current \<in> dom c1" by auto
  from Cons.prems(5) have "fold (expand_move r droplet avoid closed_set current) mvs (o1, c1, k1) =
       (open_set', came_from', counter')" by (simp add: s)
  from Cons.IH [OF one(1,2) cur1 rest this] show ?case .
qed

definition good_path :: "AStarRouter \<Rightarrow> Droplet \<Rightarrow> int set \<Rightarrow> pos list \<Rightarrow> bool" where
  "good_path r droplet avoid path \<longleftrightarrow>
     path \<noteq> [] \<and> hd path = start_pos droplet \<and> path_ok path \<and>
     (fst (last path), fst (snd (last path))) = d_end droplet \<and>
     (\<forall>k \<in> set (tl path). move_checked r droplet avoid k)"

lemma reconstruct_path_good:
  assumes ok: "came_ok r droplet avoid came_from"
    and cur: "node_pos current = start_pos droplet \<or> node_pos current \<in> dom came_from"
      "start_time droplet \<le> n_t current"
    and goal: "(n_x current, n_y current) = d_end droplet"
  shows "\<exists>path. reconstruct_path came_from (start_pos droplet) (node_pos current) = Some path \<and>
     good_path r droplet avoid path"
proof -
  have t: "start_time droplet \<le> tick (node_pos current)"
    using cur(2) by (simp add: node_pos_def)
  from walk_back_chain [OF ok cur(1) t refl, of "[]"] obtain w where
    w: "walk_back came_from (node_pos current) [] = Some w"
    "back_chain came_from (start_pos droplet) (node_pos current) w" by auto
  note p = back_chain_path [OF ok w(2)]
  let ?path = "rev (w @ [start_pos droplet])"
  have "reconstruct_path came_from (start_pos droplet) (node_pos current) = Some ?path"
    by (simp add: reconstruct_path_def w(1))
  moreover have "good_path r droplet avoid ?path"
    unfolding good_path_def using p goal by (simp add: node_pos_def)
  ultimately show ?thesis by blast
qed

lemma astar_loop_sound:
  "came_ok r droplet avoid came_from \<Longrightarrow> open_ok droplet came_from open_set \<Longrightarrow>
   start = start_pos droplet \<Longrightarrow>
   \<exists>res. astar_loop r droplet avoid start (open_set, closed_set, came_from, counter) = Some res \<and>
     (\<forall>path. res = Some path \<longrightarrow> good_path r droplet avoid path)"
proof (induction r droplet avoid start "(open_set, closed_set, came_from, counter)"
    arbitrary: open_set closed_set came_from counter rule: astar_loop.induct)
  case (1 r droplet avoid start open_set closed_set came_from counter)
  show ?case
  proof (cases "heappop open_set")
    case None
    then show ?thesis by simp
  next
    case (Some popped)
    obtain f c current rest where popped: "popped = ((f, c, current), rest)"
      by (cases popped) auto
    note pop = Some [unfolded popped]
    from heappop_member [OF pop] have mem: "(f, c, current) \<in> set open_set"
      and rest: "rest = remove1 (f, c, current) open_set" by simp_all
    from mem "1.prems"(2) have cur:
      "node_pos current = start_pos droplet \<or> node_pos current \<in> dom came_from"
      "start_time droplet \<le> n_t current"
      unfolding open_ok_def by force+
    have rest_ok: "open_ok droplet came_from rest"
      using "1.prems"(2) unfolding open_ok_def rest by (auto dest: notin_set_remove1)
    show ?thesis
    proof (cases "(n_x current, n_y current) = d_end droplet")
      case True
      from reconstruct_path_good [OF "1.prems"(1) cur True] True pop "1.prems"(3)
      show ?thesis by auto
    next
      case notgoal: False
      show ?thesis
      proof (cases "case closed_set (node_pos current) of
                     Some g \<Rightarrow> g \<le> g_score current | None \<Rightarrow> False")
        case True
        from "1.hyps"(1) [OF pop refl refl refl notgoal True "1.prems"(1) rest_ok "1.prems"(3)]
        show ?thesis using pop notgoal True by simp
      next
        case False
        obtain o2 c2 k2 where f:
          "fold (expand_move r droplet avoid
                  (closed_set(node_pos current \<mapsto> g_score current)) current)
             moves (rest, came_from, counter) = (o2, c2, k2)"
          by (cases "fold (expand_move r droplet avoid
                  (closed_set(node_pos current \<mapsto> g_score current)) current)
             moves (rest, came_from, counter)")
        from expand_moves_inv [OF cur(2) "1.prems"(1) rest_ok cur(1) subset_refl f]
        have inv2: "came_ok r droplet avoid c2" "open_ok droplet c2 o2" by simp_all
        from "1.hyps"(2) [OF pop refl refl refl notgoal False f [symmetric] refl
            inv2 "1.prems"(3)]
        show ?thesis using pop notgoal False f by simp
      qed
    qed
  qed
qed

lemma route_single_sound:
  "\<exists>res. route_single r droplet avoid = Some res \<and>
     (\<forall>path. res = Some path \<longrightarrow> good_path r droplet avoid path)"
  unfolding route_single_def
  by (rule astar_loop_sound)
    (simp_all add: came_ok_def open_ok_def node_pos_def start_pos_def)

lemma good_path_valid: "good_path r droplet avoid path \<Longrightarrow> valid_path droplet path"
  unfolding good_path_def valid_path_def path_ok_nth
  by (auto simp: start_pos_def)

lemma route_single_valid:
  "route_single r droplet avoid = Some (Some path) \<Longrightarrow> valid_path droplet path"
  using route_single_sound [of r droplet avoid] by (auto dest: good_path_valid)

subsection \<open>Paths in the results of \<open>route_multiple\<close>\<close>

definition results_ok :: "Droplet list \<Rightarrow> results \<Rightarrow> bool" where
  "results_ok droplet_list results \<longleftrightarrow>
     (\<forall>i path. (i, Some path) \<in> set results \<longrightarrow>
        (\<exists>d \<in> set droplet_list. d_id d = i \<and> valid_path d path))"

lemma set_update_subset: "set (AList.update k v al) \<subseteq> insert (k, v) (set al)"
  by (induction al) auto

lemma results_ok_update:
  assumes "results_ok droplet_list results"
    and "\<And>path. v = Some path \<Longrightarrow> \<exists>d \<in> set droplet_list. d_id d = i \<and> valid_path d path"
  shows "results_ok droplet_list (AList.update i v results)"
  unfolding results_ok_def
proof (intro allI impI)
  fix j path assume "(j, Some path) \<in> set (AList.update i v results)"
  with set_update_subset [of i v results]
  have "(j, Some path) = (i, v) \<or> (j, Some path) \<in> set results" by auto
  then show "\<exists>d \<in> set droplet_list. d_id d = j \<and> valid_path d path"
    using assms unfolding results_ok_def by auto
qed

lemma route_each_results_ok:
  "route_each xs (results, r) = Some (results', r') \<Longrightarrow> set xs \<subseteq> set droplet_list \<Longrightarrow>
     results_ok droplet_list results \<Longrightarrow> results_ok droplet_list results'"
proof (induction xs arbitrary: results r)
  case Nil
  then show ?case by simp
next
  case (Cons d xs)
  from Cons.prems(1) obtain po where po: "route_single r d {} = Some po"
    by (cases "route_single r d {}") auto
  have d: "d \<in> set droplet_list" using Cons.prems(2) by simp
  have upd: "results_ok droplet_list (AList.update (d_id d) v results)"
    if "v = po \<or> v = None" for v
  proof (rule results_ok_update [OF Cons.prems(3)])
    fix path assume "v = Some path"
    with that po have "route_single r d {} = Some (Some path)" by auto
    from route_single_valid [OF this] d
    show "\<exists>d' \<in> set droplet_list. d_id d' = d_id d \<and> valid_path d' path" by blast
  qed
  show ?case
  proof (cases "truthy_path po")
    case True
    with Cons.prems(1) po have "route_each xs (AList.update (d_id d) po results,
        add_reservations r (d_id d) (the po)) = Some (results', r')" by simp
    from Cons.IH [OF this] Cons.prems(2) upd show ?thesis by simp
  next
    case False
    with Cons.prems(1) po have "route_each xs (AList.update (d_id d) None results, r) =
        Some (results', r')" by simp
    from Cons.IH [OF this] Cons.prems(2) upd show ?thesis by simp
  qed
qed

lemma route_prioritized_results_ok:
  "route_prioritized r droplet_list = Some (results, r') \<Longrightarrow> results_ok droplet_list results"
  unfolding route_prioritized_def
  by (erule route_each_results_ok) (simp_all add: results_ok_def)

lemma resolve_conflict_results_ok:
  assumes "resolve_conflict droplet_list c (results, r) = Some (Inr (results', r'))"
    and "results_ok droplet_list results"
  shows "results_ok droplet_list results'"
proof -
  obtain key other_id droplet_id where c: "c = (key, other_id, droplet_id)" by (cases c)
  let ?later = "max other_id droplet_id"
  from assms(1) obtain d where d: "List.find (\<lambda>d. d_id d = ?later) droplet_list = Some d"
    by (cases "List.find (\<lambda>d. d_id d = ?later) droplet_list")
      (auto simp: resolve_conflict_def c Let_def)
  then have din: "d \<in> set droplet_list" and did: "d_id d = ?later"
    by (auto simp: find_Some_iff)
  let ?r1 = "case map_of results ?later of
               Some path \<Rightarrow> if truthy_path path
                            then remove_reservations r ?later (the path) else r
             | None \<Rightarrow> r"
  let ?other = "{other_id, droplet_id} - {?later}"
  from assms(1) d obtain po where po: "route_single ?r1 d ?other = Some po"
    by (cases "route_single ?r1 d ?other") (auto simp: resolve_conflict_def c Let_def)
  show ?thesis
  proof (cases "truthy_path po")
    case False
    with assms(1) d po have "results' = results"
      by (auto simp: resolve_conflict_def c Let_def)
    with assms(2) show ?thesis by simp
  next
    case True
    with assms(1) d po have r': "results' = AList.update ?later po results"
      by (auto simp: resolve_conflict_def c Let_def)
    show ?thesis unfolding r'
    proof (rule results_ok_update [OF assms(2)])
      fix path assume "po = Some path"
      with po have "route_single ?r1 d ?other = Some (Some path)" by simp
      from route_single_valid [OF this] din did
      show "\<exists>d' \<in> set droplet_list. d_id d' = ?later \<and> valid_path d' path" by blast
    qed
  qed
qed

lemma resolve_conflicts_results_ok:
  "resolve_conflicts droplet_list cs (results, r) = Some (Inr (results', r')) \<Longrightarrow>
     results_ok droplet_list results \<Longrightarrow> results_ok droplet_list results'"
proof (induction cs arbitrary: results r)
  case Nil
  then show ?case by simp
next
  case (Cons c cs)
  from Cons.prems(1) obtain res1 r1 where
    one: "resolve_conflict droplet_list c (results, r) = Some (Inr (res1, r1))"
    and rest: "resolve_conflicts droplet_list cs (res1, r1) = Some (Inr (results', r'))"
    by (auto split: option.splits sum.splits)
  from Cons.IH [OF rest resolve_conflict_results_ok [OF one Cons.prems(2)]] show ?case .
qed

lemma iterate_routing_results_ok:
  "iterate_routing n droplet_list (results, r) = Some (Inr (results', r')) \<Longrightarrow>
     results_ok droplet_list results \<Longrightarrow> results_ok droplet_list results'"
proof (induction n arbitrary: results r)
  case 0
  then show ?case by simp
next
  case (Suc n)
  show ?case
  proof (cases "detect_conflicts results = []")
    case True
    with Suc.prems show ?thesis by simp
  next
    case False
    with Suc.prems(1) obtain res1 r1 where
      one: "resolve_conflicts droplet_list (detect_conflicts results) (results, r) =
        Some (Inr (res1, r1))"
      and rest: "iterate_routing n droplet_list (res1, r1) = Some (Inr (results', r'))"
      by (auto simp: Let_def split: option.splits sum.splits)
    from Suc.IH [OF rest resolve_conflicts_results_ok [OF one Suc.prems(2)]] show ?thesis .
  qed
qed

lemma route_multiple_results_ok:
  assumes "route_multiple r droplet_list strategy = Some (Inr results)"
  shows "results_ok droplet_list results"
proof -
  from assms obtain r' where st:
    "route_multiple_state r droplet_list strategy = Some (Inr (results, r'))"
    unfolding route_multiple_def
    by (cases "route_multiple_state r droplet_list strategy")
      (auto simp: map_sum_def split: sum.splits)
  show ?thesis
  proof (cases "strategy = ''prioritized''")
    case True
    with st have "route_prioritized r droplet_list = Some (results, r')"
      by (auto simp: route_multiple_state_def)
    then show ?thesis by (rule route_prioritized_results_ok)
  next
    case False
    with st obtain res0 r0 where p: "route_prioritized r droplet_list = Some (res0, r0)"
      and i: "iterate_routing 10 droplet_list (res0, r0) = Some (Inr (results, r'))"
      by (auto simp: route_multiple_state_def route_iterative_def split: if_splits option.splits)
    from iterate_routing_results_ok [OF i route_prioritized_results_ok [OF p]]
    show ?thesis .
  qed
qed

subsection \<open>The routing calls return\<close>

lemma route_single_returns: "\<exists>res. route_single r droplet avoid = Some res"
  using route_single_sound [of r droplet avoid] by blast

lemma route_each_returns: "\<exists>res. route_each xs acc = Some res"
proof (induction xs arbitrary: acc)
  case Nil
  then show ?case by simp
next
  case (Cons d xs)
  obtain results r where acc: "acc = (results, r)" by (cases acc)
  from route_single_returns obtain po where po: "route_single r d {} = Some po" by blast
  show ?case
  proof (cases "truthy_path po")
    case True
    with Cons.IH [of "(AList.update (d_id d) po results, add_reservations r (d_id d) (the po))"]
      po show ?thesis by (simp add: acc)
  next
    case False
    with Cons.IH [of "(AList.update (d_id d) None results, r)"] po
    show ?thesis by (simp add: acc)
  qed
qed

lemma route_prioritized_returns: "\<exists>res. route_prioritized r droplet_list = Some res"
  unfolding route_prioritized_def by (rule route_each_returns)

lemma resolve_conflict_returns: "\<exists>res. resolve_conflict droplet_list c acc = Some res"
proof -
  obtain key other_id droplet_id where c: "c = (key, other_id, droplet_id)" by (cases c)
  obtain results r where acc: "acc = (results, r)" by (cases acc)
  let ?later = "max other_id droplet_id"
  show ?thesis
  proof (cases "List.find (\<lambda>d. d_id d = ?later) droplet_list")
    case None
    then show ?thesis by (simp add: resolve_conflict_def c acc Let_def)
  next
    case (Some d)
    let ?r1 = "case map_of results ?later of
               Some path \<Rightarrow> if truthy_path path
                            then remove_reservations r ?later (the path) else r
             | None \<Rightarrow> r"
    from route_single_returns obtain po where
      "route_single ?r1 d ({other_id, droplet_id} - {?later}) = Some po" by blast
    with Some show ?thesis by (simp add: resolve_conflict_def c acc Let_def)
  qed
qed

lemma resolve_conflicts_returns: "\<exists>res. resolve_conflicts droplet_list cs acc = Some res"
proof (induction cs arbitrary: acc)
  case Nil
  then show ?case by simp
next
  case (Cons c cs)
  from resolve_conflict_returns obtain res where
    res: "resolve_conflict droplet_list c acc = Some res" by blast
  show ?case
  proof (cases res)
    case (Inl e)
    with res show ?thesis by simp
  next
    case (Inr acc')
    with res Cons.IH [of acc'] show ?thesis by simp
  qed
qed

lemma iterate_routing_returns: "\<exists>res. iterate_routing n droplet_list acc = Some res"
proof (induction n arbitrary: acc)
  case 0
  then show ?case by simp
next
  case (Suc n)
  obtain results r where acc: "acc = (results, r)" by (cases acc)
  from resolve_conflicts_returns obtain res where
    res: "resolve_conflicts droplet_list (detect_conflicts results) (results, r) = Some res"
    by blast
  show ?case
  proof (cases res)
    case (Inl e)
    with res show ?thesis by (simp add: acc Let_def)
  next
    case (Inr acc')
    with res Suc.IH [of acc'] show ?thesis by (simp add: acc Let_def)
  qed
qed

lemma route_multiple_returns: "\<exists>res. route_multiple r droplet_list strategy = Some res"
proof -
  from route_prioritized_returns obtain acc where
    p: "route_prioritized r droplet_list = Some acc" by blast
  from iterate_routing_returns obtain res where
    "iterate_routing 10 droplet_list acc = Some res" by blast
  with p show ?thesis
    by (simp add: route_multiple_def route_multiple_state_def route_iterative_def)
qed

text \<open>
  C4. \<open>route_single\<close> always returns, and so does \<open>route_multiple\<close>. A path that
  \<open>route_single\<close> returns is not empty; each entry follows the one before it by exactly
  one tick and by one of the moves \<open>(1,0)\<close>, \<open>(-1,0)\<close>, \<open>(0,1)\<close>, \<open>(0,-1)\<close>,
  \<open>(0,0)\<close>; the tick of its first entry is the droplet's \<open>start_time\<close>; the cell of its
  last entry is the droplet's destination. Every path in a result of \<open>route_multiple\<close>,
  under either strategy, is such a path for a droplet of the call with the id it is filed
  under.
\<close>

theorem C4_returned_paths_are_valid:
  "(\<exists>res. route_single r droplet avoid_droplets = Some res) \<and>
   (\<forall>path. route_single r droplet avoid_droplets = Some (Some path) \<longrightarrow>
      valid_path droplet path) \<and>
   (\<exists>res. route_multiple r droplet_list strategy = Some res) \<and>
   (\<forall>results. route_multiple r droplet_list strategy = Some (Inr results) \<longrightarrow>
      (\<forall>i path'. (i, Some path') \<in> set results \<longrightarrow>
         (\<exists>d \<in> set droplet_list. d_id d = i \<and> valid_path d path')))"
proof (intro conjI impI allI)
  show "\<exists>res. route_single r droplet avoid_droplets = Some res"
    by (rule route_single_returns)
  show "valid_path droplet path" if "route_single r droplet avoid_droplets = Some (Some path)"
    for path using that by (rule route_single_valid)
  show "\<exists>res. route_multiple r droplet_list strategy = Some res"
    by (rule route_multiple_returns)
  show "\<exists>d \<in> set droplet_list. d_id d = i \<and> valid_path d path'"
    if "route_multiple r droplet_list strategy = Some (Inr results)"
      and "(i, Some path') \<in> set results" for results i path'
    using route_multiple_results_ok [OF that(1)] that(2) unfolding results_ok_def by blast
qed

lemma line_route_a:
  "route_single line_router droplet_a {} = Some (Some [(0, 0, 0), (1, 0, 1)])"
  by code_simp

lemma line_route_iterative:
  "route_multiple line_router [droplet_c, droplet_a] ''iterative'' =
     Some (Inr [(1, Some [(0, 0, 0), (1, 0, 1)]), (3, Some [(2, 0, 2), (3, 0, 3)])])"
  by code_simp

theorem C4_returned_paths_are_valid_witness:
  "route_single line_router droplet_a {} = Some (Some [(0, 0, 0), (1, 0, 1)]) \<and>
   valid_path droplet_a [(0, 0, 0), (1, 0, 1)] \<and>
   route_multiple line_router [droplet_c, droplet_a] ''iterative'' =
     Some (Inr [(1, Some [(0, 0, 0), (1, 0, 1)]), (3, Some [(2, 0, 2), (3, 0, 3)])]) \<and>
   (\<exists>d \<in> set [droplet_c, droplet_a]. d_id d = 3 \<and> valid_path d [(2, 0, 2), (3, 0, 3)])"
proof -
  note c = C4_returned_paths_are_valid
    [of line_router droplet_a "{}" "[droplet_c, droplet_a]" "''iterative''"]
  note v1 = c [THEN conjunct2, THEN conjunct1, THEN spec, THEN mp, OF line_route_a]
  have m: "(3, Some [(2, 0, 2), (3, 0, 3)]) \<in>
      set [(1, Some [(0, 0, 0), (1, 0, 1)]), (3, Some [(2, 0, 2), (3, 0, 3)])]"
    by simp
  note v2 = c [THEN conjunct2, THEN conjunct2, THEN conjunct2, THEN spec, THEN mp,
      OF line_route_iterative, THEN spec, THEN spec, THEN mp, OF m]
  show ?thesis
    by (intro conjI) (rule line_route_a line_route_iterative v1 v2)+
qed

subsection \<open>Prioritized routing\<close>



















end
